theory Spec2Isabelle
  imports Main "HOL-Library.AList"
begin

section \<open>Data model of keep-alive.js\<close>

text \<open>
  A component instance, as far as the cache sees it: its identity and whether its
  \<open>$destroy()\<close> method (code of the framework, outside the file) raises when called.
\<close>

record Component =
  iid :: nat
  destroy_raises :: bool

text \<open>
  \<open>VNodeComponentOptions\<close>: \<open>Ctor.cid\<close> (a number, printed in decimal when concatenated),
  \<open>Ctor.options.name\<close> and \<open>tag\<close>; \<open>None\<close> stands for \<open>undefined\<close>.
\<close>

record VNodeComponentOptions =
  Ctor_cid :: nat
  Ctor_options_name :: "string option"
  opts_tag :: "string option"

text \<open>
  The fields of a \<open>VNode\<close> that the file reads or writes: \<open>key\<close>, \<open>tag\<close>,
  \<open>componentOptions\<close>, \<open>componentInstance\<close> and \<open>data.keepAlive\<close>
  (\<open>data\<close> itself is taken to be an object, as it is for every component vnode).
  Keys are strings, as the Flow annotations \<open>key: ?string\<close> and \<open>keys: Array<string>\<close> say.
\<close>

record VNode =
  vnode_key :: "string option"
  vnode_tag :: "string option"
  componentOptions :: "VNodeComponentOptions option"
  componentInstance :: "Component option"
  data_keepAlive :: bool

text \<open>
  The value of \<open>include\<close> / \<open>exclude\<close>: an array of names, a string, a regular expression
  (its \<open>test\<close> method as a predicate, taken to be free of state), or any other
  truthy value. \<open>None\<close> in a \<open>pattern option\<close> is \<open>undefined\<close>, \<open>null\<close> or another
  falsy value that is not a string.
\<close>

datatype pattern =
  PArray "string list"
| PString string
| PRegExp "string \<Rightarrow> bool"
| POther

text \<open>
  The value of \<open>max\<close> (\<open>[String, Number]\<close>). Numbers are the integers of magnitude below
  \<open>10^21\<close>, whose \<open>ToString\<close> is their decimal notation.
\<close>

datatype max_value = MaxString string | MaxNumber int

text \<open>
  What \<open>cached.componentInstance.$destroy()\<close> can raise: a \<open>TypeError\<close> when
  \<open>componentInstance\<close> is undefined, or whatever the instance's own teardown throws.
\<close>

datatype error = TypeError | DestroyError nat

text \<open>
  \<open>this.cache\<close> is an object without prototype; it is kept as the list of its properties
  in creation order. A property holds a vnode or \<open>null\<close> (\<open>None\<close>).
\<close>

type_synonym VNodeCache = "(string \<times> VNode option) list"

text \<open>
  The keep-alive instance: its props, \<open>cache\<close>, \<open>keys\<close>, and \<open>this._vnode\<close>
  (\<open>cur_vnode\<close>, written by the framework after each render). \<open>destroyed_log\<close> is the trace
  of the \<open>$destroy()\<close> calls made so far, oldest first.
\<close>

record keepAlive =
  include_prop :: "pattern option"
  exclude_prop :: "pattern option"
  max_prop :: "max_value option"
  cache :: VNodeCache
  keys :: "string list"
  cur_vnode :: "VNode option"
  destroyed_log :: "nat list"

text \<open>
  An operation either completes (\<open>Inr\<close>) or raises (\<open>Inl\<close>); an exception leaves behind the
  state as mutated up to the throw.
\<close>

type_synonym 'a outcome = "(error \<times> keepAlive) + 'a"

section \<open>JavaScript primitives used by the file\<close>

text \<open>Truthiness of a string-or-undefined, of a pattern and of \<open>max\<close>.\<close>

definition truthy_string :: "string option \<Rightarrow> bool" where
  "truthy_string s = (case s of None \<Rightarrow> False | Some t \<Rightarrow> t \<noteq> [])"

definition truthy_pattern :: "pattern option \<Rightarrow> bool" where
  "truthy_pattern p = (case p of None \<Rightarrow> False | Some (PString s) \<Rightarrow> s \<noteq> [] | Some _ \<Rightarrow> True)"

definition truthy_max :: "max_value option \<Rightarrow> bool" where
  "truthy_max m =
     (case m of None \<Rightarrow> False | Some (MaxString s) \<Rightarrow> s \<noteq> [] | Some (MaxNumber n) \<Rightarrow> n \<noteq> 0)"

text \<open>\<open>pattern.split(',')\<close>: never empty; the empty string splits into one empty token.\<close>

fun split_comma :: "string \<Rightarrow> string list" where
  "split_comma [] = [] # []"
| "split_comma (c # cs) =
     (if c = CHR '','' then [] # split_comma cs
      else (case split_comma cs of [] \<Rightarrow> [c] # [] | w # ws \<Rightarrow> (c # w) # ws))"

text \<open>Digits: the value of a character in a radix, and the decimal notation of a number.\<close>

definition digit_table :: "(char \<times> nat) list" where
  "digit_table = zip ''0123456789abcdef'' [0..<16] @ zip ''ABCDEF'' [10..<16]"

definition digit_of :: "nat \<Rightarrow> char \<Rightarrow> nat option" where
  "digit_of radix c =
     (case map_of digit_table c of None \<Rightarrow> None
      | Some d \<Rightarrow> if d < radix then Some d else None)"

fun digits_prefix :: "nat \<Rightarrow> string \<Rightarrow> nat list" where
  "digits_prefix radix [] = []"
| "digits_prefix radix (c # cs) =
     (case digit_of radix c of None \<Rightarrow> [] | Some d \<Rightarrow> d # digits_prefix radix cs)"

definition digits_value :: "nat \<Rightarrow> nat list \<Rightarrow> nat" where
  "digits_value radix ds = foldl (\<lambda>a d. a * radix + d) 0 ds"

fun string_of_nat :: "nat \<Rightarrow> string" where
  "string_of_nat n =
     (if n < 10 then [''0123456789'' ! n]
      else string_of_nat (n div 10) @ [''0123456789'' ! (n mod 10)])"

declare string_of_nat.simps [simp del]

text \<open>
  \<open>parseInt\<close> without radix: leading white space is skipped, a sign is read, a prefix
  \<open>0x\<close> selects radix 16, and the longest run of digits is the value; no digit gives
  \<open>NaN\<close> (\<open>None\<close>). White space is the ASCII white space of a byte string.
\<close>

definition is_space :: "char \<Rightarrow> bool" where
  "is_space c = (c \<in> set [CHR 0x09, CHR 0x0A, CHR 0x0B, CHR 0x0C, CHR 0x0D, CHR 0x20])"

definition parseInt_string :: "string \<Rightarrow> int option" where
  "parseInt_string s =
     (let s1 = dropWhile is_space s;
          neg = (take 1 s1 = ''-'');
          s2 = (if take 1 s1 = ''-'' \<or> take 1 s1 = ''+'' then drop 1 s1 else s1);
          hex = (take 2 s2 = ''0x'' \<or> take 2 s2 = ''0X'');
          radix = (if hex then 16 else 10);
          s3 = (if hex then drop 2 s2 else s2);
          ds = digits_prefix radix s3
      in if ds = [] then None
         else Some ((if neg then - 1 else 1) * int (digits_value radix ds)))"

definition parseInt :: "max_value option \<Rightarrow> int option" where
  "parseInt m =
     (case m of None \<Rightarrow> None
      | Some (MaxString s) \<Rightarrow> parseInt_string s
      | Some (MaxNumber n) \<Rightarrow> Some n)"

text \<open>\<open>keys.length > parseInt(this.max)\<close>: a comparison with \<open>NaN\<close> is false.\<close>

definition length_exceeds :: "nat \<Rightarrow> int option \<Rightarrow> bool" where
  "length_exceeds n m = (case m of None \<Rightarrow> False | Some b \<Rightarrow> int n > b)"

text \<open>
  Property enumeration of \<open>for (const key in cache)\<close>: array-index names (canonical
  decimal numerals up to \<open>2^32 - 2\<close>) in ascending numeric order, then the other names in
  creation order.
\<close>

definition isArrayIndex :: "string \<Rightarrow> bool" where
  "isArrayIndex s =
     (s \<noteq> [] \<and> length (digits_prefix 10 s) = length s \<and> (s = ''0'' \<or> take 1 s \<noteq> ''0'')
      \<and> digits_value 10 (digits_prefix 10 s) \<le> 4294967294)"

definition own_keys :: "VNodeCache \<Rightarrow> string list" where
  "own_keys c =
     sort_key (\<lambda>s. digits_value 10 (digits_prefix 10 s)) (filter isArrayIndex (map fst c))
     @ filter (\<lambda>s. \<not> isArrayIndex s) (map fst c)"

text \<open>\<open>cache[key]\<close>: the vnode stored there; \<open>null\<close> and a missing property are both falsy.\<close>

definition cache_get :: "VNodeCache \<Rightarrow> string \<Rightarrow> VNode option" where
  "cache_get c k = (case map_of c k of Some (Some v) \<Rightarrow> Some v | _ \<Rightarrow> None)"

text \<open>
  Modelled from the spec: \<open>remove\<close> of \<open>shared/util\<close> is imported, its code is not part of
  the sources. Section 4.3, \<open>removeKey(key)\<close>: "remove from anywhere in the sequence; no-op
  if absent". One occurrence (the first) is removed.
\<close>

definition remove_item :: "string list \<Rightarrow> string \<Rightarrow> string list" where
  "remove_item arr item = remove1 item arr"

section \<open>The functions of keep-alive.js\<close>

definition getComponentName :: "VNodeComponentOptions option \<Rightarrow> string option" where
  "getComponentName opts =
     (case opts of None \<Rightarrow> None
      | Some co \<Rightarrow>
          if truthy_string (Ctor_options_name co) then Ctor_options_name co else opts_tag co)"

definition matches :: "pattern option \<Rightarrow> string \<Rightarrow> bool" where
  "matches p name =
     (case p of
        Some (PArray names) \<Rightarrow> name \<in> set names
      | Some (PString s) \<Rightarrow> name \<in> set (split_comma s)
      | Some (PRegExp test) \<Rightarrow> test name
      | _ \<Rightarrow> False)"

text \<open>
  \<open>cached.componentInstance.$destroy()\<close>: the call is recorded in the trace, then the
  instance's teardown may raise.
\<close>

definition call_destroy :: "keepAlive \<Rightarrow> VNode \<Rightarrow> keepAlive outcome" where
  "call_destroy ka cached =
     (case componentInstance cached of
        None \<Rightarrow> Inl (TypeError, ka)
      | Some i \<Rightarrow>
          (let ka' = ka\<lparr>destroyed_log := destroyed_log ka @ [iid i]\<rparr>
           in if destroy_raises i then Inl (DestroyError (iid i), ka') else Inr ka'))"

text \<open>
  \<open>pruneCacheEntry (cache, key, keys, current)\<close>; \<open>cache\<close> and \<open>keys\<close> are always the
  instance's own objects, so the instance is passed.
\<close>

definition pruneCacheEntry :: "keepAlive \<Rightarrow> string \<Rightarrow> VNode option \<Rightarrow> keepAlive outcome" where
  "pruneCacheEntry ka k current =
     (case (case cache_get (cache ka) k of
              None \<Rightarrow> Inr ka
            | Some cached \<Rightarrow>
                if (case current of None \<Rightarrow> True | Some cur \<Rightarrow> vnode_tag cached \<noteq> vnode_tag cur)
                then call_destroy ka cached else Inr ka) of
        Inl e \<Rightarrow> Inl e
      | Inr ka1 \<Rightarrow>
          Inr (ka1\<lparr>cache := AList.update k None (cache ka1),
                   keys := remove_item (keys ka1) k\<rparr>))"

text \<open>
  \<open>pruneCache (keepAliveInstance, filter)\<close>: the loop runs over the property names
  enumerated at its start (no property is added or deleted while it runs) and reads
  \<open>cache[key]\<close> afresh in each iteration.
\<close>

fun pruneCache_loop :: "keepAlive \<Rightarrow> (string \<Rightarrow> bool) \<Rightarrow> VNode option \<Rightarrow> string list \<Rightarrow> keepAlive outcome"
  where
  "pruneCache_loop ka filter_fn current [] = Inr ka"
| "pruneCache_loop ka filter_fn current (k # ks) =
     (case cache_get (cache ka) k of
        None \<Rightarrow> pruneCache_loop ka filter_fn current ks
      | Some cachedNode \<Rightarrow>
          (let name = getComponentName (componentOptions cachedNode) in
           if truthy_string name \<and> \<not> filter_fn (the name) then
             (case pruneCacheEntry ka k current of
                Inl e \<Rightarrow> Inl e
              | Inr ka' \<Rightarrow> pruneCache_loop ka' filter_fn current ks)
           else pruneCache_loop ka filter_fn current ks))"

definition pruneCache :: "keepAlive \<Rightarrow> (string \<Rightarrow> bool) \<Rightarrow> keepAlive outcome" where
  "pruneCache ka filter_fn = pruneCache_loop ka filter_fn (cur_vnode ka) (own_keys (cache ka))"

text \<open>
  The hooks \<open>created\<close>, \<open>destroyed\<close> and the two watchers set up by \<open>mounted\<close>.
  \<open>created\<close> is given the props the framework has bound; the fresh instance has an
  empty \<open>cache\<close> and \<open>keys\<close>, no current vnode and an empty trace.
\<close>

definition created :: "pattern option \<Rightarrow> pattern option \<Rightarrow> max_value option \<Rightarrow> keepAlive" where
  "created inc exc m =
     \<lparr>include_prop = inc, exclude_prop = exc, max_prop = m, cache = [], keys = [],
      cur_vnode = None, destroyed_log = []\<rparr>"

fun destroyed_loop :: "keepAlive \<Rightarrow> string list \<Rightarrow> keepAlive outcome" where
  "destroyed_loop ka [] = Inr ka"
| "destroyed_loop ka (k # ks) =
     (case pruneCacheEntry ka k None of
        Inl e \<Rightarrow> Inl e
      | Inr ka' \<Rightarrow> destroyed_loop ka' ks)"

definition destroyed :: "keepAlive \<Rightarrow> keepAlive outcome" where
  "destroyed ka = destroyed_loop ka (own_keys (cache ka))"

definition watch_include :: "keepAlive \<Rightarrow> pattern option \<Rightarrow> keepAlive outcome" where
  "watch_include ka val = pruneCache ka (\<lambda>name. matches val name)"

definition watch_exclude :: "keepAlive \<Rightarrow> pattern option \<Rightarrow> keepAlive outcome" where
  "watch_exclude ka val = pruneCache ka (\<lambda>name. \<not> matches val name)"

text \<open>
  The pieces of \<open>render\<close>: the include/exclude test that returns the vnode uncached, and
  the key expression (\<open>cid\<close> is a number, so \<open>+\<close> concatenates its decimal notation).
\<close>

definition not_cached :: "pattern option \<Rightarrow> pattern option \<Rightarrow> string option \<Rightarrow> bool" where
  "not_cached inc exc name =
     ((truthy_pattern inc \<and> (\<not> truthy_string name \<or> \<not> matches inc (the name)))
      \<or> (truthy_pattern exc \<and> truthy_string name \<and> matches exc (the name)))"

definition deriveKey :: "VNode \<Rightarrow> VNodeComponentOptions \<Rightarrow> string" where
  "deriveKey vnode opts =
     (case vnode_key vnode of
        None \<Rightarrow> string_of_nat (Ctor_cid opts)
                 @ (if truthy_string (opts_tag opts) then ''::'' @ the (opts_tag opts) else [])
      | Some k \<Rightarrow> k)"

text \<open>
  \<open>vnode.data.keepAlive = true\<close> on a miss also shows through \<open>cache[key]\<close>, which is the
  same object, when it is still stored there.
\<close>

definition mark_keepAlive :: "keepAlive \<Rightarrow> string \<Rightarrow> keepAlive" where
  "mark_keepAlive ka k =
     (case cache_get (cache ka) k of
        None \<Rightarrow> ka
      | Some v \<Rightarrow> ka\<lparr>cache := AList.update k (Some (v\<lparr>data_keepAlive := True\<rparr>)) (cache ka)\<rparr>)"

text \<open>
  \<open>render ()\<close>. \<open>child\<close> is the value of \<open>getFirstComponentChild(slot)\<close> and \<open>slot0\<close> the
  value of \<open>slot && slot[0]\<close> (both computed outside the file). The result is the new
  state and the returned vnode. \<open>keys[0]\<close> is read after the push, so it exists.
\<close>

definition render :: "keepAlive \<Rightarrow> VNode option \<Rightarrow> VNode option \<Rightarrow> (keepAlive \<times> VNode option) outcome"
  where
  "render ka child slot0 =
     (case child of
        None \<Rightarrow> Inr (ka, slot0)
      | Some vnode \<Rightarrow>
          (case componentOptions vnode of
             None \<Rightarrow> Inr (ka, Some vnode)
           | Some opts \<Rightarrow>
               if not_cached (include_prop ka) (exclude_prop ka) (getComponentName (Some opts))
               then Inr (ka, Some vnode)
               else
                 (let k = deriveKey vnode opts in
                  case cache_get (cache ka) k of
                    Some cached \<Rightarrow>
                      Inr (ka\<lparr>keys := remove_item (keys ka) k @ [k]\<rparr>,
                           Some (vnode\<lparr>componentInstance := componentInstance cached,
                                       data_keepAlive := True\<rparr>))
                  | None \<Rightarrow>
                      (let ka1 = ka\<lparr>cache := AList.update k (Some vnode) (cache ka),
                                     keys := keys ka @ [k]\<rparr>
                       in case (if truthy_max (max_prop ka1)
                                   \<and> length_exceeds (length (keys ka1)) (parseInt (max_prop ka1))
                                then pruneCacheEntry ka1 (hd (keys ka1)) (cur_vnode ka1)
                                else Inr ka1) of
                            Inl e \<Rightarrow> Inl e
                          | Inr ka2 \<Rightarrow>
                              Inr (mark_keepAlive ka2 k,
                                   Some (vnode\<lparr>data_keepAlive := True\<rparr>))))))"

section \<open>Runs of the component\<close>

text \<open>
  What can happen to a keep-alive instance between its creation and the end of its life:
  a render, a change of \<open>include\<close> or \<open>exclude\<close> (the prop is set, then its watcher
  runs), the \<open>destroyed\<close> hook, and the framework's own writes: patching sets
  \<open>componentInstance\<close> on the vnode object stored under a key, \<open>_update\<close> sets
  \<open>this._vnode\<close>, and the prop \<open>max\<close> can be rebound (it has no watcher).
\<close>

datatype op =
  Render "VNode option" "VNode option"
| IncludeChanged "pattern option"
| ExcludeChanged "pattern option"
| Destroyed
| HostPatch string Component
| HostSetVnode "VNode option"
| HostSetMax "max_value option"

definition host_patch :: "keepAlive \<Rightarrow> string \<Rightarrow> Component \<Rightarrow> keepAlive" where
  "host_patch ka k i =
     (case cache_get (cache ka) k of
        None \<Rightarrow> ka
      | Some v \<Rightarrow> ka\<lparr>cache := AList.update k (Some (v\<lparr>componentInstance := Some i\<rparr>)) (cache ka)\<rparr>)"

fun perform :: "keepAlive \<Rightarrow> op \<Rightarrow> keepAlive outcome" where
  "perform ka (Render child slot0) =
     (case render ka child slot0 of Inl e \<Rightarrow> Inl e | Inr (ka', r) \<Rightarrow> Inr ka')"
| "perform ka (IncludeChanged val) = watch_include (ka\<lparr>include_prop := val\<rparr>) val"
| "perform ka (ExcludeChanged val) = watch_exclude (ka\<lparr>exclude_prop := val\<rparr>) val"
| "perform ka Destroyed = destroyed ka"
| "perform ka (HostPatch k i) = Inr (host_patch ka k i)"
| "perform ka (HostSetVnode v) = Inr (ka\<lparr>cur_vnode := v\<rparr>)"
| "perform ka (HostSetMax m) = Inr (ka\<lparr>max_prop := m\<rparr>)"

text \<open>An exception is reported by the framework; the instance lives on in the state it left.\<close>

definition state_after :: "keepAlive outcome \<Rightarrow> keepAlive" where
  "state_after r = (case r of Inl (e, ka) \<Rightarrow> ka | Inr ka \<Rightarrow> ka)"

definition run :: "keepAlive \<Rightarrow> op list \<Rightarrow> keepAlive" where
  "run ka ops = foldl (\<lambda>s x. state_after (perform s x)) ka ops"

text \<open>The state left by a render, whether it returned or raised.\<close>

definition render_state :: "(keepAlive \<times> VNode option) outcome \<Rightarrow> keepAlive" where
  "render_state r = (case r of Inl (e, ka) \<Rightarrow> ka | Inr (ka, v) \<Rightarrow> ka)"

section \<open>Predicates used to state the properties\<close>

text \<open>
  The ledger \<open>keys\<close> and the store \<open>cache\<close> agree: no key is listed twice, and a key is
  listed exactly when the store holds a vnode (not \<open>null\<close>) under it.
\<close>

definition bijection :: "keepAlive \<Rightarrow> bool" where
  "bijection ka \<longleftrightarrow>
     distinct (keys ka) \<and> (\<forall>k. k \<in> set (keys ka) \<longleftrightarrow> cache_get (cache ka) k \<noteq> None)"

text \<open>
  A render of \<open>vnode\<close> (with component options \<open>opts\<close>) that passes the include/exclude
  test and finds nothing under its key: a miss.
\<close>

definition is_miss :: "keepAlive \<Rightarrow> VNode \<Rightarrow> VNodeComponentOptions \<Rightarrow> bool" where
  "is_miss ka vnode opts \<longleftrightarrow>
     componentOptions vnode = Some opts
     \<and> \<not> not_cached (include_prop ka) (exclude_prop ka) (getComponentName (Some opts))
     \<and> cache_get (cache ka) (deriveKey vnode opts) = None"

text \<open>
  The cacheability rule in the specification's words (a name is present when it is
  neither absent nor empty; a filter is present when the prop is not \<open>undefined\<close>):
  cacheable iff (include absent or the name is present and matches include) and not
  (exclude present and the name is present and matches exclude).
\<close>

definition spec_cacheable :: "pattern option \<Rightarrow> pattern option \<Rightarrow> string option \<Rightarrow> bool" where
  "spec_cacheable inc exc name \<longleftrightarrow>
     (inc = None \<or> (truthy_string name \<and> matches inc (the name)))
     \<and> \<not> (exc \<noteq> None \<and> truthy_string name \<and> matches exc (the name))"

text \<open>
  For \<open>pruneCache\<close>: the cached vnode has a name that the filter rejects
  (\<open>name && !filter(name)\<close>), and the cached vnode is exempt from destruction because its
  tag is that of the current vnode.
\<close>

definition fails_filter :: "(string \<Rightarrow> bool) \<Rightarrow> VNode \<Rightarrow> bool" where
  "fails_filter f v \<longleftrightarrow>
     truthy_string (getComponentName (componentOptions v))
     \<and> \<not> f (the (getComponentName (componentOptions v)))"

definition exempt :: "VNode option \<Rightarrow> VNode \<Rightarrow> bool" where
  "exempt current v = (case current of None \<Rightarrow> False | Some cur \<Rightarrow> vnode_tag v = vnode_tag cur)"

text \<open>
  The instance held under a key, the instances held by the whole store, and the
  condition that the framework hands out instances sensibly: an instance it attaches
  to a cached vnode is held by no other entry and has not been destroyed.
\<close>

definition inst_at :: "VNodeCache \<Rightarrow> string \<Rightarrow> nat option" where
  "inst_at c k = (case cache_get c k of None \<Rightarrow> None | Some v \<Rightarrow> map_option iid (componentInstance v))"

definition held_instances :: "VNodeCache \<Rightarrow> nat list" where
  "held_instances c =
     concat (map (\<lambda>(k, e). case e of None \<Rightarrow> []
                            | Some v \<Rightarrow> (case componentInstance v of None \<Rightarrow> [] | Some i \<Rightarrow> [iid i])) c)"

definition fresh :: "keepAlive \<Rightarrow> Component \<Rightarrow> bool" where
  "fresh ka i \<longleftrightarrow> iid i \<notin> set (destroyed_log ka) \<and> iid i \<notin> set (held_instances (cache ka))"

fun op_fresh :: "keepAlive \<Rightarrow> op \<Rightarrow> bool" where
  "op_fresh ka (HostPatch k i) = fresh ka i"
| "op_fresh ka (Render (Some v) slot0) =
     (case componentInstance v of None \<Rightarrow> True | Some i \<Rightarrow> fresh ka i)"
| "op_fresh ka x = True"

text \<open>A run in which no operation raises and every instance handed out is fresh.\<close>

fun quiet_run :: "keepAlive \<Rightarrow> op list \<Rightarrow> bool" where
  "quiet_run ka [] = True"
| "quiet_run ka (x # xs) =
     (op_fresh ka x \<and> (case perform ka x of Inl e \<Rightarrow> False | Inr ka' \<Rightarrow> quiet_run ka' xs))"

section \<open>Example data\<close>

text \<open>A component vnode with explicit key \<open>k\<close>, named \<open>k\<close>, of constructor \<open>c\<close>.\<close>

definition ex_opts :: "nat \<Rightarrow> string \<Rightarrow> VNodeComponentOptions" where
  "ex_opts c k = \<lparr>Ctor_cid = c, Ctor_options_name = Some k, opts_tag = Some ''tag''\<rparr>"

definition ex_vnode :: "nat \<Rightarrow> string \<Rightarrow> VNode" where
  "ex_vnode c k =
     \<lparr>vnode_key = Some k, vnode_tag = Some (''vue-component-'' @ k),
      componentOptions = Some (ex_opts c k), componentInstance = None, data_keepAlive = False\<rparr>"

definition ex_inst :: "nat \<Rightarrow> bool \<Rightarrow> Component" where
  "ex_inst n r = \<lparr>iid = n, destroy_raises = r\<rparr>"

text \<open>
  Two cached entries under \<open>max = 2\<close>: \<open>A\<close>, whose instance raises when destroyed, then
  \<open>B\<close>, which is the current vnode.
\<close>

definition ex_two_entries :: keepAlive where
  "ex_two_entries =
     run (created None None (Some (MaxNumber 2)))
       [Render (Some (ex_vnode 1 ''A'')) None, HostPatch ''A'' (ex_inst 1 True),
        HostSetVnode (Some (ex_vnode 1 ''A'')),
        Render (Some (ex_vnode 2 ''B'')) None, HostPatch ''B'' (ex_inst 2 False),
        HostSetVnode (Some (ex_vnode 2 ''B''))]"

text \<open>The same two entries, with instances that are destroyed quietly.\<close>

definition ex_full :: keepAlive where
  "ex_full =
     run (created None None (Some (MaxNumber 2)))
       [Render (Some (ex_vnode 1 ''A'')) None, HostPatch ''A'' (ex_inst 1 False),
        HostSetVnode (Some (ex_vnode 1 ''A'')),
        Render (Some (ex_vnode 2 ''B'')) None, HostPatch ''B'' (ex_inst 2 False),
        HostSetVnode (Some (ex_vnode 2 ''B''))]"

text \<open>
  An instance created without \<open>max\<close> that has cached \<open>A\<close> and \<open>B\<close>; then \<open>max\<close> is
  rebound to the string \<open>"0"\<close>.
\<close>

definition ex_max0 :: keepAlive where
  "ex_max0 =
     run (created None None None)
       [Render (Some (ex_vnode 1 ''A'')) None, HostPatch ''A'' (ex_inst 1 False),
        HostSetVnode (Some (ex_vnode 1 ''A'')),
        Render (Some (ex_vnode 2 ''B'')) None, HostPatch ''B'' (ex_inst 2 False),
        HostSetVnode (Some (ex_vnode 2 ''B'')),
        HostSetMax (Some (MaxString ''0''))]"

text \<open>
  For a prune with filter \<open>f\<close> in state \<open>ka\<close>: the key holds a vnode whose name the filter
  rejects, and the key holds a vnode whose tag is that of the current vnode.
\<close>

definition doomed :: "keepAlive \<Rightarrow> (string \<Rightarrow> bool) \<Rightarrow> string \<Rightarrow> bool" where
  "doomed ka f k = (case cache_get (cache ka) k of None \<Rightarrow> False | Some v \<Rightarrow> fails_filter f v)"

definition exempt_key :: "keepAlive \<Rightarrow> string \<Rightarrow> bool" where
  "exempt_key ka k =
     (case cache_get (cache ka) k of None \<Rightarrow> False | Some v \<Rightarrow> exempt (cur_vnode ka) v)"

text \<open>
  The trace and the store are consistent about instances: no instance was destroyed
  twice, no held instance has been destroyed, and no instance is held under two keys.
\<close>

definition inst_inv :: "keepAlive \<Rightarrow> bool" where
  "inst_inv ka \<longleftrightarrow>
     distinct (destroyed_log ka)
     \<and> (\<forall>k n. inst_at (cache ka) k = Some n \<longrightarrow> n \<notin> set (destroyed_log ka))
     \<and> (\<forall>k k' n. inst_at (cache ka) k = Some n \<and> inst_at (cache ka) k' = Some n \<longrightarrow> k = k')"

text \<open>
  A life of the component with an eviction, a prune and the teardown, all quiet; and the
  teardown that follows the eviction of \<open>A\<close> that raised.
\<close>

definition ex_life :: "op list" where
  "ex_life =
     [Render (Some (ex_vnode 1 ''A'')) None, HostPatch ''A'' (ex_inst 1 False),
      HostSetVnode (Some (ex_vnode 1 ''A'')),
      Render (Some (ex_vnode 2 ''B'')) None, HostPatch ''B'' (ex_inst 2 False),
      HostSetVnode (Some (ex_vnode 2 ''B'')),
      Render (Some (ex_vnode 3 ''C'')) None, HostPatch ''C'' (ex_inst 3 False),
      HostSetVnode (Some (ex_vnode 3 ''C'')),
      ExcludeChanged (Some (PString ''B'')),
      Destroyed]"

text \<open>
  The property list of \<open>cache\<close> names each property once (it stands for an object).
\<close>

definition names_distinct :: "keepAlive \<Rightarrow> bool" where
  "names_distinct ka \<longleftrightarrow> distinct (map fst (cache ka))"

text \<open>A run in which \<open>max\<close> is not rebound and no operation raises.\<close>

fun calm_run :: "keepAlive \<Rightarrow> op list \<Rightarrow> bool" where
  "calm_run ka [] = True"
| "calm_run ka (x # xs) =
     ((case x of HostSetMax m \<Rightarrow> False | _ \<Rightarrow> True)
      \<and> (case perform ka x of Inl e \<Rightarrow> False | Inr ka' \<Rightarrow> calm_run ka' xs))"

text \<open>
  The life of \<open>ex_two_entries\<close> continued: rendering \<open>C\<close> tries to evict \<open>A\<close>, whose
  \<open>$destroy()\<close> raises, so \<open>A\<close> stays; \<open>A\<close> is then rendered again (a hit) and becomes
  the current vnode. The ledger holds three keys under \<open>max = 2\<close>.
\<close>

definition ex_overfull :: keepAlive where
  "ex_overfull =
     run ex_two_entries
       [Render (Some (ex_vnode 3 ''C'')) None,
        Render (Some (ex_vnode 1 ''A'')) None,
        HostSetVnode (Some (ex_vnode 1 ''A''))]"

section \<open>Basic facts\<close>

lemma cache_get_update:
  "cache_get (AList.update k v c) k' = (if k' = k then v else cache_get c k')"
  by (cases v) (simp_all add: cache_get_def AList.update_conv')

lemma call_destroy_Inr:
  "call_destroy ka v = Inr ka' \<Longrightarrow>
     cache ka' = cache ka \<and> keys ka' = keys ka \<and> cur_vnode ka' = cur_vnode ka
     \<and> max_prop ka' = max_prop ka \<and> include_prop ka' = include_prop ka
     \<and> exclude_prop ka' = exclude_prop ka"
  by (auto simp: call_destroy_def Let_def split: option.splits if_splits)

lemma call_destroy_Inl:
  "call_destroy ka v = Inl (e, ka') \<Longrightarrow>
     cache ka' = cache ka \<and> keys ka' = keys ka \<and> cur_vnode ka' = cur_vnode ka
     \<and> max_prop ka' = max_prop ka \<and> include_prop ka' = include_prop ka
     \<and> exclude_prop ka' = exclude_prop ka"
  by (auto simp: call_destroy_def Let_def split: option.splits if_splits)

lemma pruneCacheEntry_Inr:
  assumes "pruneCacheEntry ka k cur = Inr ka'"
  shows "cache ka' = AList.update k None (cache ka)" "keys ka' = remove1 k (keys ka)"
    "cur_vnode ka' = cur_vnode ka" "max_prop ka' = max_prop ka"
    "include_prop ka' = include_prop ka" "exclude_prop ka' = exclude_prop ka"
  using assms
  by (auto simp: pruneCacheEntry_def remove_item_def
      split: option.splits if_splits sum.splits dest!: call_destroy_Inr)

lemma pruneCacheEntry_Inl:
  assumes "pruneCacheEntry ka k cur = Inl (e, ka')"
  shows "cache ka' = cache ka" "keys ka' = keys ka"
    "cur_vnode ka' = cur_vnode ka" "max_prop ka' = max_prop ka"
    "include_prop ka' = include_prop ka" "exclude_prop ka' = exclude_prop ka"
    "cache_get (cache ka) k \<noteq> None"
  using assms
  by (auto simp: pruneCacheEntry_def remove_item_def
      split: option.splits if_splits sum.splits dest!: call_destroy_Inl)

section \<open>The ledger and the store stay in step\<close>

lemma bijection_prune:
  assumes "bijection ka" "pruneCacheEntry ka k cur = Inr ka'"
  shows "bijection ka'"
  using assms(1) pruneCacheEntry_Inr(1,2)[OF assms(2)]
  by (auto simp: bijection_def cache_get_update)

lemma bijection_prune_state:
  assumes "bijection ka"
  shows "bijection (state_after (pruneCacheEntry ka k cur))"
proof (cases "pruneCacheEntry ka k cur")
  case (Inl a)
  obtain e ka' where a: "a = (e, ka')" by (cases a)
  from Inl a have "cache ka' = cache ka" "keys ka' = keys ka"
    using pruneCacheEntry_Inl(1,2)[of ka k cur e ka'] by simp_all
  with assms Inl a show ?thesis by (simp add: state_after_def bijection_def)
next
  case (Inr b)
  then show ?thesis using bijection_prune[OF assms] by (simp add: state_after_def)
qed

lemma bijection_pruneCache_loop:
  "bijection ka \<Longrightarrow> bijection (state_after (pruneCache_loop ka f cur ks))"
proof (induction ks arbitrary: ka)
  case Nil
  then show ?case by (simp add: state_after_def)
next
  case (Cons k ks)
  show ?case
  proof (cases "cache_get (cache ka) k")
    case None
    then show ?thesis using Cons by simp
  next
    case (Some v)
    show ?thesis
    proof (cases "truthy_string (getComponentName (componentOptions v))
                  \<and> \<not> f (the (getComponentName (componentOptions v)))")
      case False
      then show ?thesis using Cons Some by (auto simp: Let_def)
    next
      case True
      show ?thesis
      proof (cases "pruneCacheEntry ka k cur")
        case (Inl a)
        then show ?thesis using True Some bijection_prune_state[OF Cons.prems, of k cur]
          by (simp add: Let_def state_after_def)
      next
        case (Inr ka')
        then have "bijection ka'" using bijection_prune[OF Cons.prems] by simp
        then show ?thesis using True Some Inr Cons.IH[of ka'] by (simp add: Let_def)
      qed
    qed
  qed
qed

lemma bijection_destroyed_loop:
  "bijection ka \<Longrightarrow> bijection (state_after (destroyed_loop ka ks))"
proof (induction ks arbitrary: ka)
  case Nil
  then show ?case by (simp add: state_after_def)
next
  case (Cons k ks)
  show ?case
  proof (cases "pruneCacheEntry ka k None")
    case (Inl a)
    then show ?thesis using bijection_prune_state[OF Cons.prems, of k None]
      by (simp add: state_after_def)
  next
    case (Inr ka')
    then have "bijection ka'" using bijection_prune[OF Cons.prems] by simp
    then show ?thesis using Inr Cons.IH[of ka'] by simp
  qed
qed

lemma bijection_insert:
  assumes "bijection ka" "cache_get (cache ka) k = None"
  shows "bijection (ka\<lparr>cache := AList.update k (Some v) (cache ka), keys := keys ka @ [k]\<rparr>)"
  using assms by (auto simp: bijection_def cache_get_update)

lemma bijection_touch:
  assumes "bijection ka" "cache_get (cache ka) k = Some v"
  shows "bijection (ka\<lparr>keys := remove_item (keys ka) k @ [k]\<rparr>)"
  using assms by (auto simp: bijection_def remove_item_def)

lemma bijection_mark: "bijection ka \<Longrightarrow> bijection (mark_keepAlive ka k)"
  by (auto simp: bijection_def mark_keepAlive_def cache_get_update split: option.splits)

lemma bijection_host_patch: "bijection ka \<Longrightarrow> bijection (host_patch ka k i)"
  by (auto simp: bijection_def host_patch_def cache_get_update split: option.splits)

lemma bijection_render:
  assumes "bijection ka"
  shows "bijection (render_state (render ka child slot0))"
proof (cases child)
  case None
  then show ?thesis using assms by (simp add: render_def render_state_def)
next
  case (Some vnode)
  note child = Some
  show ?thesis
  proof (cases "componentOptions vnode")
    case None
    then show ?thesis using assms child by (simp add: render_def render_state_def)
  next
    case (Some opts)
    note opts = Some
    show ?thesis
    proof (cases "not_cached (include_prop ka) (exclude_prop ka) (getComponentName (Some opts))")
      case True
      then show ?thesis using assms child opts by (simp add: render_def render_state_def)
    next
      case False
      define k where "k = deriveKey vnode opts"
      show ?thesis
      proof (cases "cache_get (cache ka) k")
        case (Some cached)
        then show ?thesis
          using assms child opts False bijection_touch[OF assms Some]
          by (simp add: render_def render_state_def k_def Let_def)
      next
        case None
        define ka1 where
          "ka1 = ka\<lparr>cache := AList.update k (Some vnode) (cache ka), keys := keys ka @ [k]\<rparr>"
        have b1: "bijection ka1"
          unfolding ka1_def by (rule bijection_insert[OF assms None])
        define r where
          "r = (if truthy_max (max_prop ka1)
                   \<and> length_exceeds (length (keys ka1)) (parseInt (max_prop ka1))
                then pruneCacheEntry ka1 (hd (keys ka1)) (cur_vnode ka1) else Inr ka1)"
        have br: "bijection (state_after r)"
          unfolding r_def using b1 bijection_prune_state[OF b1] by (simp add: state_after_def)
        have "render ka child slot0 =
                (case r of Inl e \<Rightarrow> Inl e
                 | Inr ka2 \<Rightarrow> Inr (mark_keepAlive ka2 k, Some (vnode\<lparr>data_keepAlive := True\<rparr>)))"
          using child opts False None
          by (simp add: render_def k_def[symmetric] Let_def ka1_def r_def)
        then show ?thesis using br bijection_mark
          by (auto simp: render_state_def state_after_def split: sum.splits prod.splits)
      qed
    qed
  qed
qed

lemma bijection_perform: "bijection ka \<Longrightarrow> bijection (state_after (perform ka x))"
proof (cases x)
  case (Render c s)
  assume "bijection ka"
  from bijection_render[OF this, of c s] Render show ?thesis
    by (auto simp: render_state_def state_after_def split: sum.splits prod.splits)
next
  case (IncludeChanged v)
  assume "bijection ka"
  then have "bijection (ka\<lparr>include_prop := v\<rparr>)" by (simp add: bijection_def)
  then show ?thesis
    using IncludeChanged by (simp add: watch_include_def pruneCache_def bijection_pruneCache_loop)
next
  case (ExcludeChanged v)
  assume "bijection ka"
  then have "bijection (ka\<lparr>exclude_prop := v\<rparr>)" by (simp add: bijection_def)
  then show ?thesis
    using ExcludeChanged by (simp add: watch_exclude_def pruneCache_def bijection_pruneCache_loop)
next
  case Destroyed
  assume "bijection ka"
  then show ?thesis using Destroyed by (simp add: destroyed_def bijection_destroyed_loop)
next
  case (HostPatch k i)
  assume "bijection ka"
  then show ?thesis using HostPatch by (simp add: state_after_def bijection_host_patch)
next
  case (HostSetVnode v)
  assume "bijection ka"
  then show ?thesis using HostSetVnode by (simp add: state_after_def bijection_def)
next
  case (HostSetMax m)
  assume "bijection ka"
  then show ?thesis using HostSetMax by (simp add: state_after_def bijection_def)
qed

lemma bijection_run: "bijection ka \<Longrightarrow> bijection (run ka ops)"
  unfolding run_def
  by (induction ops arbitrary: ka) (simp_all add: bijection_perform)

lemma bijection_created: "bijection (created inc exc m)"
  by (simp add: bijection_def created_def cache_get_def)

text \<open>
  C7. In every state reached from the created instance by any sequence of renders,
  include/exclude changes, teardown and writes of the framework, whether or not some of
  them raised, the ledger \<open>keys\<close> has no duplicate and lists exactly the keys under which
  \<open>cache\<close> holds a vnode (not \<open>null\<close>).
\<close>

theorem ledger_store_bijection:
  "distinct (keys (run (created inc exc m) ops))
   \<and> (\<forall>k. k \<in> set (keys (run (created inc exc m) ops))
            \<longleftrightarrow> cache_get (cache (run (created inc exc m) ops)) k \<noteq> None)"
  using bijection_run[OF bijection_created, of inc exc m ops] by (simp add: bijection_def)

section \<open>Key derivation\<close>

text \<open>
  C6. The cache key is a function of the vnode and its component options alone: an
  explicit key is returned verbatim; otherwise the key is the decimal \<open>cid\<close>, followed by
  \<open>::\<close> and the tag when the tag is non-empty. A vnode with key \<open>k1\<close> whose fallback key
  would be \<open>42::tag\<close> gets the key \<open>k1\<close>.
\<close>

theorem deriveKey_explicit_or_fallback:
  "deriveKey vnode opts =
     (case vnode_key vnode of
        Some k \<Rightarrow> k
      | None \<Rightarrow>
          (case opts_tag opts of
             None \<Rightarrow> string_of_nat (Ctor_cid opts)
           | Some t \<Rightarrow> if t = [] then string_of_nat (Ctor_cid opts)
                       else string_of_nat (Ctor_cid opts) @ ''::'' @ t))
   \<and> deriveKey (ex_vnode 42 ''k1'') (ex_opts 42 ''k1'') = ''k1''
   \<and> deriveKey ((ex_vnode 42 ''k1'')\<lparr>vnode_key := None\<rparr>) (ex_opts 42 ''k1'') = ''42::tag''"
  by (simp add: deriveKey_def truthy_string_def ex_vnode_def ex_opts_def string_of_nat.simps
      split: option.splits)

section \<open>A destroy call that raises\<close>

lemma outcome_split:
  "(case r of Inl (e, s) \<Rightarrow> e = x | Inr _ \<Rightarrow> False) \<Longrightarrow> r = Inl (x, state_after r)"
  by (auto simp: state_after_def split: sum.splits prod.splits)

lemma call_destroy_log:
  "call_destroy ka v = Inl (DestroyError n, ka') \<Longrightarrow>
     destroyed_log ka' = destroyed_log ka @ [n] \<and> map_option iid (componentInstance v) = Some n"
  by (auto simp: call_destroy_def Let_def split: option.splits if_splits)

text \<open>
  C1, as stated, fails: with \<open>A\<close> and \<open>B\<close> cached under \<open>max = 2\<close>, rendering \<open>C\<close> evicts
  \<open>A\<close>; the \<open>$destroy()\<close> of \<open>A\<close>'s instance raises, and afterwards \<open>A\<close> is still in \<open>keys\<close>
  and still stored in \<open>cache\<close>.
\<close>

theorem eviction_raise_counterexample:
  "perform ex_two_entries (Render (Some (ex_vnode 3 ''C'')) None)
     = Inl (DestroyError 1,
            state_after (perform ex_two_entries (Render (Some (ex_vnode 3 ''C'')) None)))
   \<and> ''A'' \<in> set (keys (state_after
                          (perform ex_two_entries (Render (Some (ex_vnode 3 ''C'')) None))))
   \<and> cache_get (cache (state_after
                          (perform ex_two_entries (Render (Some (ex_vnode 3 ''C'')) None)))) ''A''
       \<noteq> None"
proof -
  have "case perform ex_two_entries (Render (Some (ex_vnode 3 ''C'')) None) of
          Inl (e, s) \<Rightarrow> e = DestroyError 1 | Inr _ \<Rightarrow> False"
    by code_simp
  then have "perform ex_two_entries (Render (Some (ex_vnode 3 ''C'')) None)
     = Inl (DestroyError 1,
            state_after (perform ex_two_entries (Render (Some (ex_vnode 3 ''C'')) None)))"
    by (rule outcome_split)
  moreover have "''A'' \<in> set (keys (state_after
                    (perform ex_two_entries (Render (Some (ex_vnode 3 ''C'')) None))))"
    by code_simp
  moreover have "cache_get (cache (state_after
                    (perform ex_two_entries (Render (Some (ex_vnode 3 ''C'')) None)))) ''A''
                  \<noteq> None"
    by code_simp
  ultimately show ?thesis by blast
qed

text \<open>
  C1, amended. \<open>pruneCacheEntry\<close> calls \<open>$destroy()\<close> before it touches \<open>cache\<close> and
  \<open>keys\<close>. When the call raises, the error propagates with the entry fully in place:
  \<open>cache\<close> and \<open>keys\<close> are unchanged, the key is still in \<open>keys\<close>, the store still holds
  the instance under it, and ledger and store still agree (the entry is never half
  evicted).
\<close>

theorem destroy_raises_entry_kept:
  assumes "bijection ka" and "pruneCacheEntry ka k current = Inl (DestroyError n, ka')"
  shows "cache ka' = cache ka \<and> keys ka' = keys ka
         \<and> destroyed_log ka' = destroyed_log ka @ [n]
         \<and> k \<in> set (keys ka') \<and> inst_at (cache ka') k = Some n \<and> bijection ka'"
proof -
  note P = pruneCacheEntry_Inl[OF assms(2)]
  obtain v where v: "cache_get (cache ka) k = Some v" using P(7) by auto
  have cd: "call_destroy ka v = Inl (DestroyError n, ka')"
    using assms(2) v by (auto simp: pruneCacheEntry_def split: if_splits sum.splits)
  have "k \<in> set (keys ka)" using assms(1) v by (simp add: bijection_def)
  moreover have "bijection ka'" using assms(1) P(1,2) by (simp add: bijection_def)
  ultimately show ?thesis
    using P(1,2) call_destroy_log[OF cd] v by (simp add: inst_at_def)
qed

theorem destroy_raises_entry_kept_witness:
  "bijection ex_two_entries
   \<and> pruneCacheEntry ex_two_entries ''A'' (cur_vnode ex_two_entries)
       = Inl (DestroyError 1,
              state_after (pruneCacheEntry ex_two_entries ''A'' (cur_vnode ex_two_entries)))
   \<and> ''A'' \<in> set (keys (state_after
                          (pruneCacheEntry ex_two_entries ''A'' (cur_vnode ex_two_entries))))
   \<and> inst_at (cache (state_after
                        (pruneCacheEntry ex_two_entries ''A'' (cur_vnode ex_two_entries)))) ''A''
       = Some 1"
proof -
  have b: "bijection ex_two_entries"
    unfolding ex_two_entries_def by (rule bijection_run[OF bijection_created])
  have "case pruneCacheEntry ex_two_entries ''A'' (cur_vnode ex_two_entries) of
          Inl (e, s) \<Rightarrow> e = DestroyError 1 | Inr _ \<Rightarrow> False"
    by code_simp
  then have p: "pruneCacheEntry ex_two_entries ''A'' (cur_vnode ex_two_entries)
       = Inl (DestroyError 1,
              state_after (pruneCacheEntry ex_two_entries ''A'' (cur_vnode ex_two_entries)))"
    by (rule outcome_split)
  from destroy_raises_entry_kept[OF b p] b p show ?thesis by blast
qed

section \<open>The include/exclude test\<close>

text \<open>
  C5, as stated, fails when \<open>include\<close> is the empty string: the prop is present, the name
  \<open>Foo\<close> does not match it, yet the code tests \<open>include\<close> for truthiness, skips the
  filter and caches the vnode.
\<close>

theorem empty_include_counterexample:
  "\<not> not_cached (Some (PString '''')) None (Some ''Foo'')
   \<and> \<not> spec_cacheable (Some (PString '''')) None (Some ''Foo'')
   \<and> keys (render_state (render (created (Some (PString '''')) None None)
                                  (Some (ex_vnode 1 ''Foo'')) None)) = [''Foo'']"
  by (simp add: not_cached_def spec_cacheable_def truthy_pattern_def truthy_string_def
      matches_def render_def created_def ex_vnode_def ex_opts_def getComponentName_def
      deriveKey_def cache_get_def truthy_max_def render_state_def mark_keepAlive_def Let_def)

text \<open>
  C5, amended. A vnode with component options is cached iff (\<open>include\<close> is absent or the
  empty string, or the name is present and matches \<open>include\<close>) and not (\<open>exclude\<close> is
  present and the name is present and matches it). Without a name nothing is cached
  under a truthy \<open>include\<close>; and a vnode that is not cached is returned as it is, with
  \<open>cache\<close>, \<open>keys\<close> and the rest of the state untouched.
\<close>

theorem not_cached_iff:
  "(\<not> not_cached inc exc name \<longleftrightarrow>
      ((inc = None \<or> inc = Some (PString [])) \<or> (truthy_string name \<and> matches inc (the name)))
      \<and> \<not> (exc \<noteq> None \<and> truthy_string name \<and> matches exc (the name)))
   \<and> (truthy_pattern inc \<and> \<not> truthy_string name \<longrightarrow> not_cached inc exc name)
   \<and> (componentOptions vnode = Some opts
        \<and> not_cached (include_prop ka) (exclude_prop ka) (getComponentName (Some opts))
        \<longrightarrow> render ka (Some vnode) slot0 = Inr (ka, Some vnode))"
proof -
  have m: "\<And>n. n \<noteq> [] \<Longrightarrow> \<not> matches (Some (PString [])) n"
    by (simp add: matches_def)
  have "(\<not> not_cached inc exc name \<longleftrightarrow>
      ((inc = None \<or> inc = Some (PString [])) \<or> (truthy_string name \<and> matches inc (the name)))
      \<and> \<not> (exc \<noteq> None \<and> truthy_string name \<and> matches exc (the name)))"
    using m
    by (auto simp: not_cached_def truthy_pattern_def truthy_string_def matches_def
        split: option.splits pattern.splits)
  moreover have "truthy_pattern inc \<and> \<not> truthy_string name \<longrightarrow> not_cached inc exc name"
    by (simp add: not_cached_def)
  moreover have "componentOptions vnode = Some opts
        \<and> not_cached (include_prop ka) (exclude_prop ka) (getComponentName (Some opts))
        \<longrightarrow> render ka (Some vnode) slot0 = Inr (ka, Some vnode)"
    by (simp add: render_def)
  ultimately show ?thesis by blast
qed

theorem not_cached_iff_witness:
  "truthy_pattern (Some (PString ''Foo,Bar'')) \<and> \<not> truthy_string None
   \<and> not_cached (Some (PString ''Foo,Bar'')) None None
   \<and> componentOptions (ex_vnode 1 ''Baz'') = Some (ex_opts 1 ''Baz'')
   \<and> not_cached (include_prop (created (Some (PString ''Foo,Bar'')) None None))
        (exclude_prop (created (Some (PString ''Foo,Bar'')) None None))
        (getComponentName (Some (ex_opts 1 ''Baz'')))
   \<and> render (created (Some (PString ''Foo,Bar'')) None None) (Some (ex_vnode 1 ''Baz'')) None
       = Inr (created (Some (PString ''Foo,Bar'')) None None, Some (ex_vnode 1 ''Baz''))"
proof -
  have a: "truthy_pattern (Some (PString ''Foo,Bar'')) \<and> \<not> truthy_string None"
    by (simp add: truthy_pattern_def truthy_string_def)
  have b: "componentOptions (ex_vnode 1 ''Baz'') = Some (ex_opts 1 ''Baz'')"
    by (simp add: ex_vnode_def)
  have c: "not_cached (include_prop (created (Some (PString ''Foo,Bar'')) None None))
        (exclude_prop (created (Some (PString ''Foo,Bar'')) None None))
        (getComponentName (Some (ex_opts 1 ''Baz'')))"
    by (simp add: not_cached_def created_def truthy_pattern_def truthy_string_def
        getComponentName_def ex_opts_def matches_def)
  from a b c
    not_cached_iff[of "Some (PString ''Foo,Bar'')" None None "ex_vnode 1 ''Baz''"
      "ex_opts 1 ''Baz''" "created (Some (PString ''Foo,Bar'')) None None" None]
  show ?thesis by blast
qed

section \<open>The miss path of render\<close>

lemma render_miss:
  assumes "is_miss ka vnode opts"
  shows "render ka (Some vnode) slot0 =
     (case (if truthy_max (max_prop ka)
               \<and> length_exceeds (Suc (length (keys ka))) (parseInt (max_prop ka))
            then pruneCacheEntry
                   (ka\<lparr>cache := AList.update (deriveKey vnode opts) (Some vnode) (cache ka),
                       keys := keys ka @ [deriveKey vnode opts]\<rparr>)
                   (hd (keys ka @ [deriveKey vnode opts])) (cur_vnode ka)
            else Inr (ka\<lparr>cache := AList.update (deriveKey vnode opts) (Some vnode) (cache ka),
                          keys := keys ka @ [deriveKey vnode opts]\<rparr>)) of
        Inl e \<Rightarrow> Inl e
      | Inr ka2 \<Rightarrow>
          Inr (mark_keepAlive ka2 (deriveKey vnode opts), Some (vnode\<lparr>data_keepAlive := True\<rparr>)))"
  using assms by (simp add: is_miss_def render_def Let_def)

lemma render_hit:
  assumes "componentOptions vnode = Some opts"
    and "\<not> not_cached (include_prop ka) (exclude_prop ka) (getComponentName (Some opts))"
    and "cache_get (cache ka) (deriveKey vnode opts) = Some cached"
  shows "render ka (Some vnode) slot0 =
     Inr (ka\<lparr>keys := remove1 (deriveKey vnode opts) (keys ka) @ [deriveKey vnode opts]\<rparr>,
          Some (vnode\<lparr>componentInstance := componentInstance cached, data_keepAlive := True\<rparr>))"
  using assms by (simp add: render_def Let_def remove_item_def)

lemma mark_after_insert:
  "mark_keepAlive (ka\<lparr>cache := AList.update k (Some v) (cache ka), keys := ks\<rparr>) k
     = ka\<lparr>cache := AList.update k (Some (v\<lparr>data_keepAlive := True\<rparr>)) (cache ka), keys := ks\<rparr>"
  by (simp add: mark_keepAlive_def cache_get_update)

lemma mark_keepAlive_fields:
  "keys (mark_keepAlive ka k) = keys ka" "destroyed_log (mark_keepAlive ka k) = destroyed_log ka"
  by (simp_all add: mark_keepAlive_def split: option.splits)

lemma render_split:
  "(case r of Inl _ \<Rightarrow> False | Inr (s, v) \<Rightarrow> v = x) \<Longrightarrow> r = Inr (render_state r, x)"
  by (auto simp: render_state_def split: sum.splits prod.splits)

lemma completes_split:
  "(case r of Inl _ \<Rightarrow> False | Inr _ \<Rightarrow> True) \<Longrightarrow> r = Inr (state_after r)"
  by (auto simp: state_after_def split: sum.splits prod.splits)

lemma parseInt_string_Some_nonempty: "parseInt_string s = Some m \<Longrightarrow> s \<noteq> []"
  by (auto simp: parseInt_string_def Let_def)

lemma parseInt_pos_truthy: "parseInt m = Some b \<Longrightarrow> 0 < b \<Longrightarrow> truthy_max m"
  by (auto simp: parseInt_def truthy_max_def split: option.splits max_value.splits
      dest: parseInt_string_Some_nonempty)


text \<open>
  C3, as stated, fails for the strings \<open>"0"\<close> and \<open>"-1"\<close>: they are truthy and
  \<open>parseInt\<close> reads a bound from them that every ledger exceeds. With \<open>A\<close> and \<open>B\<close>
  cached and \<open>max\<close> rebound to \<open>"0"\<close>, rendering \<open>C\<close> evicts \<open>A\<close>: its instance is
  destroyed and its key removed. And an instance created with \<open>max = "0"\<close> raises a
  \<open>TypeError\<close> in its first render, when it tries to evict the vnode it has just stored.
\<close>

theorem string_zero_max_counterexample:
  "max_prop ex_max0 = Some (MaxString ''0'') \<and> keys ex_max0 = [''A'', ''B'']
   \<and> is_miss ex_max0 (ex_vnode 3 ''C'') (ex_opts 3 ''C'')
   \<and> keys (render_state (render ex_max0 (Some (ex_vnode 3 ''C'')) None)) = [''B'', ''C'']
   \<and> cache_get (cache (render_state (render ex_max0 (Some (ex_vnode 3 ''C'')) None))) ''A'' = None
   \<and> destroyed_log (render_state (render ex_max0 (Some (ex_vnode 3 ''C'')) None)) = [1]
   \<and> isl (render (created None None (Some (MaxString ''0''))) (Some (ex_vnode 1 ''A'')) None)
   \<and> fst (projl (render (created None None (Some (MaxString ''0'')))
                     (Some (ex_vnode 1 ''A'')) None)) = TypeError"
proof (intro conjI)
  show "max_prop ex_max0 = Some (MaxString ''0'')" by code_simp
  show "keys ex_max0 = [''A'', ''B'']" by code_simp
  show "is_miss ex_max0 (ex_vnode 3 ''C'') (ex_opts 3 ''C'')" by code_simp
  show "keys (render_state (render ex_max0 (Some (ex_vnode 3 ''C'')) None)) = [''B'', ''C'']"
    by code_simp
  show "cache_get (cache (render_state (render ex_max0 (Some (ex_vnode 3 ''C'')) None))) ''A'' = None"
    by code_simp
  show "destroyed_log (render_state (render ex_max0 (Some (ex_vnode 3 ''C'')) None)) = [1]"
    by code_simp
  show "isl (render (created None None (Some (MaxString ''0''))) (Some (ex_vnode 1 ''A'')) None)"
    by code_simp
  show "fst (projl (render (created None None (Some (MaxString ''0'')))
                     (Some (ex_vnode 1 ''A'')) None)) = TypeError"
    by code_simp
qed

text \<open>
  C3, amended. When \<open>max\<close> is falsy (absent, the number \<open>0\<close>, the empty string) or is a
  string from which \<open>parseInt\<close> reads no number, a miss only stores the vnode and appends
  its key: nothing is evicted, whatever the size of the ledger. When \<open>max\<close> is truthy and
  parses to a bound \<open>b \<le> 0\<close> (such as \<open>"0"\<close> or \<open>"-1"\<close>), the bound is applied as
  parsed: every miss goes on to prune the oldest key \<open>keys[0]\<close>.
\<close>

theorem no_eviction_without_bound:
  "(is_miss ka vnode opts \<and> (\<not> truthy_max (max_prop ka) \<or> parseInt (max_prop ka) = None)
      \<longrightarrow> render ka (Some vnode) slot0 =
            Inr (ka\<lparr>cache := AList.update (deriveKey vnode opts)
                                (Some (vnode\<lparr>data_keepAlive := True\<rparr>)) (cache ka),
                     keys := keys ka @ [deriveKey vnode opts]\<rparr>,
                 Some (vnode\<lparr>data_keepAlive := True\<rparr>)))
   \<and> (is_miss ka vnode opts \<and> truthy_max (max_prop ka) \<and> parseInt (max_prop ka) = Some b \<and> b \<le> 0
      \<longrightarrow> render ka (Some vnode) slot0 =
            (case pruneCacheEntry
                    (ka\<lparr>cache := AList.update (deriveKey vnode opts) (Some vnode) (cache ka),
                        keys := keys ka @ [deriveKey vnode opts]\<rparr>)
                    (hd (keys ka @ [deriveKey vnode opts])) (cur_vnode ka) of
               Inl e \<Rightarrow> Inl e
             | Inr ka2 \<Rightarrow>
                 Inr (mark_keepAlive ka2 (deriveKey vnode opts),
                      Some (vnode\<lparr>data_keepAlive := True\<rparr>))))"
proof (intro conjI impI)
  assume a: "is_miss ka vnode opts \<and> (\<not> truthy_max (max_prop ka) \<or> parseInt (max_prop ka) = None)"
  then have c: "\<not> (truthy_max (max_prop ka)
               \<and> length_exceeds (Suc (length (keys ka))) (parseInt (max_prop ka)))"
    by (auto simp: length_exceeds_def)
  from a have m: "is_miss ka vnode opts" by simp
  show "render ka (Some vnode) slot0 =
            Inr (ka\<lparr>cache := AList.update (deriveKey vnode opts)
                                (Some (vnode\<lparr>data_keepAlive := True\<rparr>)) (cache ka),
                     keys := keys ka @ [deriveKey vnode opts]\<rparr>,
                 Some (vnode\<lparr>data_keepAlive := True\<rparr>))"
    unfolding render_miss[OF m] if_not_P[OF c] by (simp add: mark_after_insert)
next
  assume a: "is_miss ka vnode opts \<and> truthy_max (max_prop ka) \<and> parseInt (max_prop ka) = Some b \<and> b \<le> 0"
  then have c: "truthy_max (max_prop ka)
               \<and> length_exceeds (Suc (length (keys ka))) (parseInt (max_prop ka))"
    by (auto simp: length_exceeds_def)
  from a have m: "is_miss ka vnode opts" by simp
  show "render ka (Some vnode) slot0 =
            (case pruneCacheEntry
                    (ka\<lparr>cache := AList.update (deriveKey vnode opts) (Some vnode) (cache ka),
                        keys := keys ka @ [deriveKey vnode opts]\<rparr>)
                    (hd (keys ka @ [deriveKey vnode opts])) (cur_vnode ka) of
               Inl e \<Rightarrow> Inl e
             | Inr ka2 \<Rightarrow>
                 Inr (mark_keepAlive ka2 (deriveKey vnode opts),
                      Some (vnode\<lparr>data_keepAlive := True\<rparr>)))"
    unfolding render_miss[OF m] if_P[OF c] by simp
qed

theorem no_eviction_without_bound_witness:
  "is_miss (created None None (Some (MaxString ''abc''))) (ex_vnode 1 ''A'') (ex_opts 1 ''A'')
   \<and> parseInt (max_prop (created None None (Some (MaxString ''abc'')))) = None
   \<and> keys (render_state (render (created None None (Some (MaxString ''abc'')))
                                  (Some (ex_vnode 1 ''A'')) None)) = [''A'']
   \<and> is_miss ex_max0 (ex_vnode 3 ''C'') (ex_opts 3 ''C'')
   \<and> truthy_max (max_prop ex_max0) \<and> parseInt (max_prop ex_max0) = Some 0
   \<and> render ex_max0 (Some (ex_vnode 3 ''C'')) None =
            (case pruneCacheEntry
                    (ex_max0\<lparr>cache := AList.update (deriveKey (ex_vnode 3 ''C'') (ex_opts 3 ''C''))
                                        (Some (ex_vnode 3 ''C'')) (cache ex_max0),
                        keys := keys ex_max0 @ [deriveKey (ex_vnode 3 ''C'') (ex_opts 3 ''C'')]\<rparr>)
                    (hd (keys ex_max0 @ [deriveKey (ex_vnode 3 ''C'') (ex_opts 3 ''C'')]))
                    (cur_vnode ex_max0) of
               Inl e \<Rightarrow> Inl e
             | Inr ka2 \<Rightarrow>
                 Inr (mark_keepAlive ka2 (deriveKey (ex_vnode 3 ''C'') (ex_opts 3 ''C'')),
                      Some ((ex_vnode 3 ''C'')\<lparr>data_keepAlive := True\<rparr>)))"
proof -
  have a1: "is_miss (created None None (Some (MaxString ''abc''))) (ex_vnode 1 ''A'') (ex_opts 1 ''A'')"
    by code_simp
  have a2: "parseInt (max_prop (created None None (Some (MaxString ''abc'')))) = None"
    by code_simp
  have b1: "is_miss ex_max0 (ex_vnode 3 ''C'') (ex_opts 3 ''C'')" by code_simp
  have b2: "truthy_max (max_prop ex_max0)" by code_simp
  have b3: "parseInt (max_prop ex_max0) = Some 0" by code_simp
  have k: "\<And>n. deriveKey (ex_vnode n ''A'') (ex_opts n ''A'') = ''A''"
    by (simp add: deriveKey_def ex_vnode_def)
  from a1 a2 no_eviction_without_bound[of "created None None (Some (MaxString ''abc''))"
      "ex_vnode 1 ''A''" "ex_opts 1 ''A''" None 0]
  have "keys (render_state (render (created None None (Some (MaxString ''abc'')))
                                  (Some (ex_vnode 1 ''A'')) None)) = [''A'']"
    by (simp add: render_state_def k created_def)
  moreover from b1 b2 b3 no_eviction_without_bound[of ex_max0 "ex_vnode 3 ''C''" "ex_opts 3 ''C''" None 0]
  have "render ex_max0 (Some (ex_vnode 3 ''C'')) None =
            (case pruneCacheEntry
                    (ex_max0\<lparr>cache := AList.update (deriveKey (ex_vnode 3 ''C'') (ex_opts 3 ''C''))
                                        (Some (ex_vnode 3 ''C'')) (cache ex_max0),
                        keys := keys ex_max0 @ [deriveKey (ex_vnode 3 ''C'') (ex_opts 3 ''C'')]\<rparr>)
                    (hd (keys ex_max0 @ [deriveKey (ex_vnode 3 ''C'') (ex_opts 3 ''C'')]))
                    (cur_vnode ex_max0) of
               Inl e \<Rightarrow> Inl e
             | Inr ka2 \<Rightarrow>
                 Inr (mark_keepAlive ka2 (deriveKey (ex_vnode 3 ''C'') (ex_opts 3 ''C'')),
                      Some ((ex_vnode 3 ''C'')\<lparr>data_keepAlive := True\<rparr>)))"
    by blast
  ultimately show ?thesis using a1 a2 b1 b2 b3 by blast
qed

lemma pruneCache_loop_shrinks:
  "pruneCache_loop ka f cur ks = Inr ka' \<Longrightarrow>
     length (keys ka') \<le> length (keys ka) \<and> max_prop ka' = max_prop ka"
proof (induction ks arbitrary: ka)
  case Nil
  then show ?case by simp
next
  case (Cons k ks)
  show ?case
  proof (cases "pruneCache_loop ka f cur (k # ks) = pruneCache_loop ka f cur ks")
    case True
    then show ?thesis using Cons by simp
  next
    case False
    then obtain ka1 where p: "pruneCacheEntry ka k cur = Inr ka1"
      and l: "pruneCache_loop ka1 f cur ks = Inr ka'"
      using Cons.prems by (auto simp: Let_def split: option.splits if_splits sum.splits)
    have "length (keys ka1) \<le> length (keys ka)"
      using pruneCacheEntry_Inr(2)[OF p] by (simp add: length_remove1)
    then show ?thesis using Cons.IH[OF l] pruneCacheEntry_Inr(4)[OF p] by simp
  qed
qed

lemma destroyed_loop_shrinks:
  "destroyed_loop ka ks = Inr ka' \<Longrightarrow>
     length (keys ka') \<le> length (keys ka) \<and> max_prop ka' = max_prop ka"
proof (induction ks arbitrary: ka)
  case Nil
  then show ?case by simp
next
  case (Cons k ks)
  from Cons.prems obtain ka1 where p: "pruneCacheEntry ka k None = Inr ka1"
    and l: "destroyed_loop ka1 ks = Inr ka'"
    by (auto split: sum.splits)
  have "length (keys ka1) \<le> length (keys ka)"
    using pruneCacheEntry_Inr(2)[OF p] by (simp add: length_remove1)
  then show ?case using Cons.IH[OF l] pruneCacheEntry_Inr(4)[OF p] by simp
qed

lemma miss_within_bound:
  assumes "is_miss ka vnode opts"
    and "parseInt (max_prop ka) = Some m" and "0 < m"
    and "length (keys ka) \<le> nat m"
    and "render ka (Some vnode) slot0 = Inr (ka', r)"
  shows "max_prop ka' = max_prop ka"
    and "length (keys ka) < nat m \<longrightarrow>
          keys ka' = keys ka @ [deriveKey vnode opts] \<and> destroyed_log ka' = destroyed_log ka"
    and "length (keys ka) = nat m \<longrightarrow>
          keys ka' = tl (keys ka) @ [deriveKey vnode opts]
          \<and> length (destroyed_log ka') \<le> Suc (length (destroyed_log ka))"
proof -
  define k where "k = deriveKey vnode opts"
  define ka1 where "ka1 = ka\<lparr>cache := AList.update k (Some vnode) (cache ka), keys := keys ka @ [k]\<rparr>"
  have t: "truthy_max (max_prop ka)" using assms(2,3) by (rule parseInt_pos_truthy)
  have ex: "length_exceeds (Suc (length (keys ka))) (parseInt (max_prop ka)) \<longleftrightarrow> length (keys ka) = nat m"
    using assms(2,3,4) by (auto simp: length_exceeds_def)
  have mk: "\<And>s. max_prop (mark_keepAlive s k) = max_prop s"
    by (simp add: mark_keepAlive_def split: option.splits)
  note R = render_miss[OF assms(1), of slot0, folded k_def, folded ka1_def]
  have "max_prop ka' = max_prop ka
    \<and> (length (keys ka) < nat m \<longrightarrow>
          keys ka' = keys ka @ [k] \<and> destroyed_log ka' = destroyed_log ka)
    \<and> (length (keys ka) = nat m \<longrightarrow>
          keys ka' = tl (keys ka) @ [k]
          \<and> length (destroyed_log ka') \<le> Suc (length (destroyed_log ka)))"
  proof (cases "length (keys ka) = nat m")
    case False
    then have "render ka (Some vnode) slot0 = Inr (mark_keepAlive ka1 k, Some (vnode\<lparr>data_keepAlive := True\<rparr>))"
      using R ex by simp
    then have "ka' = mark_keepAlive ka1 k" using assms(5) by simp
    then show ?thesis using False by (simp add: mark_keepAlive_fields mk ka1_def)
  next
    case True
    then have ne: "keys ka \<noteq> []" using assms(3) by auto
    from True have "render ka (Some vnode) slot0 =
        (case pruneCacheEntry ka1 (hd (keys ka @ [k])) (cur_vnode ka) of Inl e \<Rightarrow> Inl e
         | Inr ka2 \<Rightarrow> Inr (mark_keepAlive ka2 k, Some (vnode\<lparr>data_keepAlive := True\<rparr>)))"
      using R ex t by simp
    with assms(5) obtain ka2 where p: "pruneCacheEntry ka1 (hd (keys ka @ [k])) (cur_vnode ka) = Inr ka2"
      and ka': "ka' = mark_keepAlive ka2 k"
      by (auto split: sum.splits)
    have "keys ka2 = remove1 (hd (keys ka @ [k])) (keys ka1)" using pruneCacheEntry_Inr(2)[OF p] .
    also have "\<dots> = tl (keys ka) @ [k]" using ne by (cases "keys ka") (simp_all add: ka1_def)
    finally have keys2: "keys ka2 = tl (keys ka) @ [k]" .
    have "length (destroyed_log ka2) \<le> Suc (length (destroyed_log ka1))"
      using p by (auto simp: pruneCacheEntry_def call_destroy_def Let_def split: option.splits if_splits sum.splits)
    then show ?thesis
      using True keys2 ka' pruneCacheEntry_Inr(4)[OF p]
      by (simp add: mark_keepAlive_fields mk ka1_def)
  qed
  then show "max_prop ka' = max_prop ka"
    and "length (keys ka) < nat m \<longrightarrow>
          keys ka' = keys ka @ [deriveKey vnode opts] \<and> destroyed_log ka' = destroyed_log ka"
    and "length (keys ka) = nat m \<longrightarrow>
          keys ka' = tl (keys ka) @ [deriveKey vnode opts]
          \<and> length (destroyed_log ka') \<le> Suc (length (destroyed_log ka))"
    by (simp_all add: k_def)
qed

lemma render_within_bound:
  assumes "bijection ka" and "parseInt (max_prop ka) = Some m" and "0 < m"
    and "length (keys ka) \<le> nat m"
    and "render ka child slot0 = Inr (ka', r)"
  shows "length (keys ka') \<le> nat m \<and> max_prop ka' = max_prop ka"
proof (cases "\<exists>vnode opts. child = Some vnode \<and> is_miss ka vnode opts")
  case True
  then obtain vnode opts where child: "child = Some vnode" and miss: "is_miss ka vnode opts"
    by blast
  note M = miss_within_bound[OF miss assms(2,3,4) assms(5)[unfolded child]]
  have "length (keys ka') \<le> nat m"
  proof (cases "length (keys ka) = nat m")
    case True
    then have "keys ka \<noteq> []" using assms(3) by auto
    then show ?thesis using M(3) True assms(3) by simp
  next
    case False
    then show ?thesis using M(2) assms(4) by simp
  qed
  then show ?thesis using M(1) by simp
next
  case False
  have "ka' = ka \<or> (\<exists>k. k \<in> set (keys ka) \<and> ka' = ka\<lparr>keys := remove1 k (keys ka) @ [k]\<rparr>)"
    using False assms(1,5)
    by (auto simp: render_def is_miss_def Let_def remove_item_def bijection_def split: option.splits if_splits)
  then show ?thesis using assms(4)
    by (auto simp: length_remove1) (metis One_nat_def Suc_pred length_pos_if_in_set)
qed

lemma perform_within_bound:
  assumes "bijection ka" and "parseInt (max_prop ka) = Some m" and "0 < m"
    and "length (keys ka) \<le> nat m"
    and "perform ka x = Inr ka'" and "case x of HostSetMax m \<Rightarrow> False | _ \<Rightarrow> True"
  shows "length (keys ka') \<le> nat m \<and> max_prop ka' = max_prop ka"
proof (cases x)
  case (Render c s)
  with assms(5) obtain r where "render ka c s = Inr (ka', r)"
    by (auto split: sum.splits prod.splits)
  from render_within_bound[OF assms(1-4) this] show ?thesis .
next
  case (IncludeChanged v)
  then show ?thesis using assms(4,5)
    by (auto simp: watch_include_def pruneCache_def dest!: pruneCache_loop_shrinks)
next
  case (ExcludeChanged v)
  then show ?thesis using assms(4,5)
    by (auto simp: watch_exclude_def pruneCache_def dest!: pruneCache_loop_shrinks)
next
  case Destroyed
  then show ?thesis using assms(4,5) by (auto simp: destroyed_def dest!: destroyed_loop_shrinks)
next
  case (HostPatch k i)
  then show ?thesis using assms(4,5) by (auto simp: host_patch_def split: option.splits)
next
  case (HostSetVnode v)
  then show ?thesis using assms(4,5) by auto
next
  case (HostSetMax m)
  then show ?thesis using assms(6) by simp
qed

lemma calm_run_within_bound:
  "bijection ka \<Longrightarrow> parseInt (max_prop ka) = Some m \<Longrightarrow> 0 < m \<Longrightarrow> length (keys ka) \<le> nat m \<Longrightarrow>
     calm_run ka ops \<Longrightarrow> length (keys (run ka ops)) \<le> nat m"
proof (induction ops arbitrary: ka)
  case Nil
  then show ?case by (simp add: run_def)
next
  case (Cons x xs)
  from Cons.prems(5) obtain ka' where c: "case x of HostSetMax m \<Rightarrow> False | _ \<Rightarrow> True"
    and p: "perform ka x = Inr ka'" and q: "calm_run ka' xs"
    by (auto split: sum.splits)
  note B = perform_within_bound[OF Cons.prems(1-4) p c]
  have b: "bijection ka'" using bijection_perform[OF Cons.prems(1), of x] p by (simp add: state_after_def)
  from Cons.IH[OF b _ Cons.prems(3) _ q] B Cons.prems(2) p show ?case
    by (simp add: run_def state_after_def)
qed

text \<open>
  C8, as stated, fails once the ledger is over the bound. Under \<open>max = 2\<close>, after the
  eviction of \<open>A\<close> raised and left \<open>A\<close> cached, the ledger is \<open>[B, C, A]\<close>; the miss on
  \<open>D\<close> completes, evicts one key (\<open>B\<close>), and leaves the three keys \<open>[C, A, D]\<close>.
\<close>

theorem ledger_over_bound_counterexample:
  "parseInt (max_prop ex_overfull) = Some 2
   \<and> keys ex_overfull = [''B'', ''C'', ''A'']
   \<and> is_miss ex_overfull (ex_vnode 4 ''D'') (ex_opts 4 ''D'')
   \<and> \<not> isl (render ex_overfull (Some (ex_vnode 4 ''D'')) None)
   \<and> keys (render_state (render ex_overfull (Some (ex_vnode 4 ''D'')) None))
       = [''C'', ''A'', ''D'']
   \<and> \<not> length (keys (render_state (render ex_overfull (Some (ex_vnode 4 ''D'')) None))) \<le> 2"
proof (intro conjI)
  show "parseInt (max_prop ex_overfull) = Some 2" by code_simp
  show "keys ex_overfull = [''B'', ''C'', ''A'']" by code_simp
  show "is_miss ex_overfull (ex_vnode 4 ''D'') (ex_opts 4 ''D'')" by code_simp
  show "\<not> isl (render ex_overfull (Some (ex_vnode 4 ''D'')) None)" by code_simp
  show "keys (render_state (render ex_overfull (Some (ex_vnode 4 ''D'')) None))
       = [''C'', ''A'', ''D'']" by code_simp
  show "\<not> length (keys (render_state (render ex_overfull (Some (ex_vnode 4 ''D'')) None))) \<le> 2"
    by code_simp
qed

text \<open>
  C8, amended. Let \<open>max\<close> parse to a positive integer \<open>m\<close> and let the ledger hold at
  most \<open>m\<close> keys before the cycle, as it does in every state reached from the created
  instance while \<open>max\<close> is left alone and nothing raises. After a miss cycle that
  completes, the ledger holds at most \<open>m\<close> keys. Below capacity the key is appended and
  nothing is destroyed; at capacity exactly one key, the oldest, is evicted: the ledger
  is the old one without its head, followed by the new key, of length exactly \<open>m\<close>, and
  at most one destroy call was made.
\<close>

theorem capacity_bound_after_miss:
  assumes "is_miss ka vnode opts"
    and "parseInt (max_prop ka) = Some m" and "0 < m"
    and "length (keys ka) \<le> nat m"
    and "render ka (Some vnode) slot0 = Inr (ka', r)"
  shows "length (keys ka') \<le> nat m
     \<and> (length (keys ka) < nat m \<longrightarrow>
          keys ka' = keys ka @ [deriveKey vnode opts] \<and> destroyed_log ka' = destroyed_log ka)
     \<and> (length (keys ka) = nat m \<longrightarrow>
          keys ka' = tl (keys ka) @ [deriveKey vnode opts] \<and> length (keys ka') = nat m
          \<and> length (destroyed_log ka') \<le> Suc (length (destroyed_log ka)))"
proof -
  note M = miss_within_bound[OF assms]
  show ?thesis
  proof (cases "length (keys ka) = nat m")
    case True
    then have "keys ka \<noteq> []" using assms(3) by auto
    then show ?thesis using M(3) True assms(3) by simp
  next
    case False
    then show ?thesis using M(2) assms(4) by simp
  qed
qed

theorem capacity_bound_after_miss_witness:
  "is_miss ex_full (ex_vnode 3 ''C'') (ex_opts 3 ''C'')
   \<and> parseInt (max_prop ex_full) = Some 2 \<and> (0::int) < 2
   \<and> length (keys ex_full) \<le> nat 2
   \<and> render ex_full (Some (ex_vnode 3 ''C'')) None
       = Inr (render_state (render ex_full (Some (ex_vnode 3 ''C'')) None),
              Some ((ex_vnode 3 ''C'')\<lparr>data_keepAlive := True\<rparr>))
   \<and> length (keys (render_state (render ex_full (Some (ex_vnode 3 ''C'')) None))) = 2
   \<and> keys (render_state (render ex_full (Some (ex_vnode 3 ''C'')) None))
       = tl (keys ex_full) @ [deriveKey (ex_vnode 3 ''C'') (ex_opts 3 ''C'')]"
proof -
  have a: "is_miss ex_full (ex_vnode 3 ''C'') (ex_opts 3 ''C'')" by code_simp
  have b: "parseInt (max_prop ex_full) = Some 2" by code_simp
  have c: "length (keys ex_full) \<le> nat 2" by code_simp
  have l: "length (keys ex_full) = nat 2" by code_simp
  have "case render ex_full (Some (ex_vnode 3 ''C'')) None of
          Inl _ \<Rightarrow> False | Inr (s, v) \<Rightarrow> v = Some ((ex_vnode 3 ''C'')\<lparr>data_keepAlive := True\<rparr>)"
    by code_simp
  then have d: "render ex_full (Some (ex_vnode 3 ''C'')) None
       = Inr (render_state (render ex_full (Some (ex_vnode 3 ''C'')) None),
              Some ((ex_vnode 3 ''C'')\<lparr>data_keepAlive := True\<rparr>))"
    by (rule render_split)
  have z: "(0::int) < 2" by simp
  from capacity_bound_after_miss[OF a b z c d] l a b c d show ?thesis by simp
qed



section \<open>The scenario with three slots\<close>

lemma run_append: "run ka (xs @ ys) = run (run ka xs) ys"
  by (simp add: run_def)

lemma run_Nil: "run ka [] = ka"
  by (simp add: run_def)

lemma run_Cons: "run ka (x # xs) = run (state_after (perform ka x)) xs"
  by (simp add: run_def)

lemma not_cached_no_filters: "\<not> not_cached None None name"
  by (simp add: not_cached_def truthy_pattern_def)

lemma deriveKey_ex: "deriveKey (ex_vnode n k) (ex_opts n k) = k"
  by (simp add: deriveKey_def ex_vnode_def)

text \<open>
  C4. With a bound that parses to 3, no filters and an empty cache, let \<open>A\<close>, \<open>B\<close>,
  \<open>C\<close>, \<open>D\<close> be component vnodes with distinct derived keys; after each render the
  framework patches the stored vnode with its instance and records the rendered vnode
  as current. The cycles miss \<open>A\<close>, miss \<open>B\<close>, miss \<open>C\<close>, hit \<open>A\<close>, miss \<open>D\<close> give the
  ledgers \<open>[A]\<close>, \<open>[A,B]\<close>, \<open>[A,B,C]\<close>, \<open>[B,C,A]\<close>, \<open>[C,A,D]\<close>; no destroy call is made
  in the first four cycles, and the fifth makes exactly one, on \<open>B\<close>'s instance (whose
  tag differs from the current vnode's and whose teardown does not raise).
\<close>

theorem lru_scenario_max3:
  assumes m: "truthy_max m" "parseInt m = Some 3"
    and opts: "componentOptions A = Some oA" "componentOptions B = Some oB"
      "componentOptions C = Some oC" "componentOptions D = Some oD"
    and keys: "distinct [deriveKey A oA, deriveKey B oB, deriveKey C oC, deriveKey D oD]"
    and tag: "vnode_tag B \<noteq> vnode_tag A"
    and quiet: "\<not> destroy_raises iB"
  shows "keys (run (created None None m)
                 [Render (Some A) None]) = [deriveKey A oA]
     \<and> keys (run (created None None m)
                 [Render (Some A) None, HostPatch (deriveKey A oA) iA, HostSetVnode (Some A),
                  Render (Some B) None]) = [deriveKey A oA, deriveKey B oB]
     \<and> keys (run (created None None m)
                 [Render (Some A) None, HostPatch (deriveKey A oA) iA, HostSetVnode (Some A),
                  Render (Some B) None, HostPatch (deriveKey B oB) iB, HostSetVnode (Some B),
                  Render (Some C) None]) = [deriveKey A oA, deriveKey B oB, deriveKey C oC]
     \<and> keys (run (created None None m)
                 [Render (Some A) None, HostPatch (deriveKey A oA) iA, HostSetVnode (Some A),
                  Render (Some B) None, HostPatch (deriveKey B oB) iB, HostSetVnode (Some B),
                  Render (Some C) None, HostPatch (deriveKey C oC) iC, HostSetVnode (Some C),
                  Render (Some A) None]) = [deriveKey B oB, deriveKey C oC, deriveKey A oA]
     \<and> destroyed_log (run (created None None m)
                 [Render (Some A) None, HostPatch (deriveKey A oA) iA, HostSetVnode (Some A),
                  Render (Some B) None, HostPatch (deriveKey B oB) iB, HostSetVnode (Some B),
                  Render (Some C) None, HostPatch (deriveKey C oC) iC, HostSetVnode (Some C),
                  Render (Some A) None]) = []
     \<and> keys (run (created None None m)
                 [Render (Some A) None, HostPatch (deriveKey A oA) iA, HostSetVnode (Some A),
                  Render (Some B) None, HostPatch (deriveKey B oB) iB, HostSetVnode (Some B),
                  Render (Some C) None, HostPatch (deriveKey C oC) iC, HostSetVnode (Some C),
                  Render (Some A) None, HostSetVnode (Some A),
                  Render (Some D) None]) = [deriveKey C oC, deriveKey A oA, deriveKey D oD]
     \<and> destroyed_log (run (created None None m)
                 [Render (Some A) None, HostPatch (deriveKey A oA) iA, HostSetVnode (Some A),
                  Render (Some B) None, HostPatch (deriveKey B oB) iB, HostSetVnode (Some B),
                  Render (Some C) None, HostPatch (deriveKey C oC) iC, HostSetVnode (Some C),
                  Render (Some A) None, HostSetVnode (Some A),
                  Render (Some D) None]) = [iid iB]"
proof -
  define a where "a = deriveKey A oA"
  define b where "b = deriveKey B oB"
  define c where "c = deriveKey C oC"
  define d where "d = deriveKey D oD"
  note kd = a_def[symmetric] b_def[symmetric] c_def[symmetric] d_def[symmetric]
  have ne: "a \<noteq> b" "a \<noteq> c" "a \<noteq> d" "b \<noteq> a" "b \<noteq> c" "b \<noteq> d"
    "c \<noteq> a" "c \<noteq> b" "c \<noteq> d" "d \<noteq> a" "d \<noteq> b" "d \<noteq> c"
    using keys unfolding kd by auto
  note ev = run_Cons run_Nil state_after_def render_def not_cached_no_filters
    cache_get_def host_patch_def mark_keepAlive_def length_exceeds_def Let_def
    pruneCacheEntry_def call_destroy_def remove_item_def
  define S1 where "S1 = \<lparr>include_prop = None, exclude_prop = None, max_prop = m,
       cache = [(a, Some (A\<lparr>data_keepAlive := True\<rparr>))], keys = [a],
       cur_vnode = None, destroyed_log = []\<rparr>"
  define S2 where "S2 = \<lparr>include_prop = None, exclude_prop = None, max_prop = m,
       cache = [(a, Some (A\<lparr>componentInstance := Some iA, data_keepAlive := True\<rparr>)),
                (b, Some (B\<lparr>data_keepAlive := True\<rparr>))],
       keys = [a, b], cur_vnode = Some A, destroyed_log = []\<rparr>"
  define S3 where "S3 = \<lparr>include_prop = None, exclude_prop = None, max_prop = m,
       cache = [(a, Some (A\<lparr>componentInstance := Some iA, data_keepAlive := True\<rparr>)),
                (b, Some (B\<lparr>componentInstance := Some iB, data_keepAlive := True\<rparr>)),
                (c, Some (C\<lparr>data_keepAlive := True\<rparr>))],
       keys = [a, b, c], cur_vnode = Some B, destroyed_log = []\<rparr>"
  define S4 where "S4 = \<lparr>include_prop = None, exclude_prop = None, max_prop = m,
       cache = [(a, Some (A\<lparr>componentInstance := Some iA, data_keepAlive := True\<rparr>)),
                (b, Some (B\<lparr>componentInstance := Some iB, data_keepAlive := True\<rparr>)),
                (c, Some (C\<lparr>componentInstance := Some iC, data_keepAlive := True\<rparr>))],
       keys = [b, c, a], cur_vnode = Some C, destroyed_log = []\<rparr>"
  define S5 where "S5 = \<lparr>include_prop = None, exclude_prop = None, max_prop = m,
       cache = [(a, Some (A\<lparr>componentInstance := Some iA, data_keepAlive := True\<rparr>)),
                (b, None),
                (c, Some (C\<lparr>componentInstance := Some iC, data_keepAlive := True\<rparr>)),
                (d, Some (D\<lparr>data_keepAlive := True\<rparr>))],
       keys = [c, a, d], cur_vnode = Some A, destroyed_log = [iid iB]\<rparr>"
  have s1: "run (created None None m) [Render (Some A) None] = S1"
    using m opts by (simp add: ev kd created_def S1_def)
  have s2: "run S1 [HostPatch a iA, HostSetVnode (Some A), Render (Some B) None] = S2"
    using m opts ne by (simp add: ev kd S1_def S2_def)
  have s3: "run S2 [HostPatch b iB, HostSetVnode (Some B), Render (Some C) None] = S3"
    using m opts ne by (simp add: ev kd S2_def S3_def)
  have s4: "run S3 [HostPatch c iC, HostSetVnode (Some C), Render (Some A) None] = S4"
    using m opts ne by (simp add: ev kd S3_def S4_def)
  have s5: "run S4 [HostSetVnode (Some A), Render (Some D) None] = S5"
    using m opts ne tag quiet by (simp add: ev kd S4_def S5_def)
  have r2: "run (created None None m)
                 [Render (Some A) None, HostPatch a iA, HostSetVnode (Some A),
                  Render (Some B) None] = S2"
    using run_append[of "created None None m" "[Render (Some A) None]"
        "[HostPatch a iA, HostSetVnode (Some A), Render (Some B) None]"] s1 s2 by simp
  have r3: "run (created None None m)
                 [Render (Some A) None, HostPatch a iA, HostSetVnode (Some A),
                  Render (Some B) None, HostPatch b iB, HostSetVnode (Some B),
                  Render (Some C) None] = S3"
    using run_append[of "created None None m" "[Render (Some A) None, HostPatch a iA,
        HostSetVnode (Some A), Render (Some B) None]"
        "[HostPatch b iB, HostSetVnode (Some B), Render (Some C) None]"] r2 s3 by simp
  have r4: "run (created None None m)
                 [Render (Some A) None, HostPatch a iA, HostSetVnode (Some A),
                  Render (Some B) None, HostPatch b iB, HostSetVnode (Some B),
                  Render (Some C) None, HostPatch c iC, HostSetVnode (Some C),
                  Render (Some A) None] = S4"
    using run_append[of "created None None m" "[Render (Some A) None, HostPatch a iA,
        HostSetVnode (Some A), Render (Some B) None, HostPatch b iB, HostSetVnode (Some B),
        Render (Some C) None]"
        "[HostPatch c iC, HostSetVnode (Some C), Render (Some A) None]"] r3 s4 by simp
  have r5: "run (created None None m)
                 [Render (Some A) None, HostPatch a iA, HostSetVnode (Some A),
                  Render (Some B) None, HostPatch b iB, HostSetVnode (Some B),
                  Render (Some C) None, HostPatch c iC, HostSetVnode (Some C),
                  Render (Some A) None, HostSetVnode (Some A),
                  Render (Some D) None] = S5"
    using run_append[of "created None None m" "[Render (Some A) None, HostPatch a iA,
        HostSetVnode (Some A), Render (Some B) None, HostPatch b iB, HostSetVnode (Some B),
        Render (Some C) None, HostPatch c iC, HostSetVnode (Some C), Render (Some A) None]"
        "[HostSetVnode (Some A), Render (Some D) None]"] r4 s5 by simp
  show ?thesis
    unfolding kd s1 r2 r3 r4 r5 by (simp add: S1_def S2_def S3_def S4_def S5_def)
qed

theorem lru_scenario_max3_witness:
  "truthy_max (Some (MaxNumber 3)) \<and> parseInt (Some (MaxNumber 3)) = Some 3
   \<and> distinct [deriveKey (ex_vnode 1 ''A'') (ex_opts 1 ''A''),
                deriveKey (ex_vnode 2 ''B'') (ex_opts 2 ''B''),
                deriveKey (ex_vnode 3 ''C'') (ex_opts 3 ''C''),
                deriveKey (ex_vnode 4 ''D'') (ex_opts 4 ''D'')]
   \<and> vnode_tag (ex_vnode 2 ''B'') \<noteq> vnode_tag (ex_vnode 1 ''A'')
   \<and> \<not> destroy_raises (ex_inst 2 False)
   \<and> keys (run (created None None (Some (MaxNumber 3)))
             [Render (Some (ex_vnode 1 ''A'')) None, HostPatch ''A'' (ex_inst 1 False),
              HostSetVnode (Some (ex_vnode 1 ''A'')),
              Render (Some (ex_vnode 2 ''B'')) None, HostPatch ''B'' (ex_inst 2 False),
              HostSetVnode (Some (ex_vnode 2 ''B'')),
              Render (Some (ex_vnode 3 ''C'')) None, HostPatch ''C'' (ex_inst 3 False),
              HostSetVnode (Some (ex_vnode 3 ''C'')),
              Render (Some (ex_vnode 1 ''A'')) None, HostSetVnode (Some (ex_vnode 1 ''A'')),
              Render (Some (ex_vnode 4 ''D'')) None]) = [''C'', ''A'', ''D'']
   \<and> destroyed_log (run (created None None (Some (MaxNumber 3)))
             [Render (Some (ex_vnode 1 ''A'')) None, HostPatch ''A'' (ex_inst 1 False),
              HostSetVnode (Some (ex_vnode 1 ''A'')),
              Render (Some (ex_vnode 2 ''B'')) None, HostPatch ''B'' (ex_inst 2 False),
              HostSetVnode (Some (ex_vnode 2 ''B'')),
              Render (Some (ex_vnode 3 ''C'')) None, HostPatch ''C'' (ex_inst 3 False),
              HostSetVnode (Some (ex_vnode 3 ''C'')),
              Render (Some (ex_vnode 1 ''A'')) None, HostSetVnode (Some (ex_vnode 1 ''A'')),
              Render (Some (ex_vnode 4 ''D'')) None]) = [2]"
proof -
  have m: "truthy_max (Some (MaxNumber 3))" "parseInt (Some (MaxNumber 3)) = Some 3"
    by (simp_all add: truthy_max_def parseInt_def)
  have o: "componentOptions (ex_vnode 1 ''A'') = Some (ex_opts 1 ''A'')"
    "componentOptions (ex_vnode 2 ''B'') = Some (ex_opts 2 ''B'')"
    "componentOptions (ex_vnode 3 ''C'') = Some (ex_opts 3 ''C'')"
    "componentOptions (ex_vnode 4 ''D'') = Some (ex_opts 4 ''D'')"
    by (simp_all add: ex_vnode_def)
  have k: "distinct [deriveKey (ex_vnode 1 ''A'') (ex_opts 1 ''A''),
                deriveKey (ex_vnode 2 ''B'') (ex_opts 2 ''B''),
                deriveKey (ex_vnode 3 ''C'') (ex_opts 3 ''C''),
                deriveKey (ex_vnode 4 ''D'') (ex_opts 4 ''D'')]"
    by (simp add: deriveKey_ex)
  have t: "vnode_tag (ex_vnode 2 ''B'') \<noteq> vnode_tag (ex_vnode 1 ''A'')"
    by (simp add: ex_vnode_def)
  have q: "\<not> destroy_raises (ex_inst 2 False)" by (simp add: ex_inst_def)
  have i: "iid (ex_inst 2 False) = 2" by (simp add: ex_inst_def)
  from lru_scenario_max3[OF m o k t q, of "ex_inst 1 False" "ex_inst 3 False"] m k t q
  show ?thesis by (simp only: deriveKey_ex i) simp
qed

section \<open>Pruning after a filter change\<close>

lemma pruneCacheEntry_log:
  assumes "pruneCacheEntry ka k cur = Inr ka'"
  shows "map Some (destroyed_log ka') =
           map Some (destroyed_log ka)
           @ (case cache_get (cache ka) k of None \<Rightarrow> []
              | Some v \<Rightarrow> if exempt cur v then [] else [inst_at (cache ka) k])"
  using assms
  by (auto simp: pruneCacheEntry_def call_destroy_def exempt_def inst_at_def Let_def
      split: option.splits if_splits sum.splits)

lemma pruneCache_loop_effect:
  assumes "distinct ks" "distinct (keys ka)" "pruneCache_loop ka f (cur_vnode ka) ks = Inr ka'"
  shows "(\<forall>k. cache_get (cache ka') k
               = (if k \<in> set ks \<and> doomed ka f k then None else cache_get (cache ka) k))
       \<and> keys ka' = filter (\<lambda>k. \<not> (k \<in> set ks \<and> doomed ka f k)) (keys ka)
       \<and> map Some (destroyed_log ka') =
           map Some (destroyed_log ka)
           @ map (inst_at (cache ka)) (filter (\<lambda>k. doomed ka f k \<and> \<not> exempt_key ka k) ks)"
  using assms
proof (induction ks arbitrary: ka)
  case Nil
  then show ?case by simp
next
  case (Cons k ks)
  show ?case
  proof (cases "doomed ka f k")
    case False
    then have "pruneCache_loop ka f (cur_vnode ka) (k # ks) = pruneCache_loop ka f (cur_vnode ka) ks"
      by (auto simp: doomed_def fails_filter_def Let_def split: option.splits)
    with Cons.prems have "pruneCache_loop ka f (cur_vnode ka) ks = Inr ka'" by simp
    from Cons.IH[OF _ Cons.prems(2) this] Cons.prems(1) False show ?thesis
      by (auto intro!: filter_cong)
  next
    case True
    then obtain v where v: "cache_get (cache ka) k = Some v" and ff: "fails_filter f v"
      by (auto simp: doomed_def split: option.splits)
    from Cons.prems(3) v ff obtain ka1 where
      p: "pruneCacheEntry ka k (cur_vnode ka) = Inr ka1"
      and l: "pruneCache_loop ka1 f (cur_vnode ka) ks = Inr ka'"
      by (auto simp: fails_filter_def Let_def split: sum.splits)
    note P = pruneCacheEntry_Inr[OF p]
    have d1: "distinct (keys ka1)" using P(2) Cons.prems(2) by simp
    have l': "pruneCache_loop ka1 f (cur_vnode ka1) ks = Inr ka'" using l P(3) by simp
    have kn: "k \<notin> set ks" using Cons.prems(1) by simp
    have same: "\<And>k'. k' \<noteq> k \<Longrightarrow> cache_get (cache ka1) k' = cache_get (cache ka) k'"
      using P(1) by (simp add: cache_get_update)
    have gone: "cache_get (cache ka1) k = None" using P(1) by (simp add: cache_get_update)
    have same': "cache_get (cache ka1) k' = cache_get (cache ka) k'" if "k' \<in> set ks" for k'
    proof -
      from that kn have "k' \<noteq> k" by auto
      then show ?thesis by (rule same)
    qed
    have dm: "\<And>k'. k' \<in> set ks \<Longrightarrow> doomed ka1 f k' = doomed ka f k'"
      by (simp add: doomed_def same')
    have ex: "\<And>k'. k' \<in> set ks \<Longrightarrow> exempt_key ka1 k' = exempt_key ka k'"
      by (simp add: exempt_key_def same' P(3) cong: option.case_cong)
    have ia: "\<And>k'. k' \<in> set ks \<Longrightarrow> inst_at (cache ka1) k' = inst_at (cache ka) k'"
      by (simp add: inst_at_def same')
    have dks: "distinct ks" using Cons.prems(1) by simp
    note IH = Cons.IH[OF dks d1 l']
    from IH have IHc: "\<And>k'. cache_get (cache ka') k'
        = (if k' \<in> set ks \<and> doomed ka1 f k' then None else cache_get (cache ka1) k')"
      by blast
    from IH have IHk: "keys ka' = filter (\<lambda>k'. \<not> (k' \<in> set ks \<and> doomed ka1 f k')) (keys ka1)"
      by blast
    from IH have IHl: "map Some (destroyed_log ka') = map Some (destroyed_log ka1)
        @ map (inst_at (cache ka1)) (filter (\<lambda>k'. doomed ka1 f k' \<and> \<not> exempt_key ka1 k') ks)"
      by blast
    have c: "\<forall>k'. cache_get (cache ka') k'
               = (if k' \<in> set (k # ks) \<and> doomed ka f k' then None else cache_get (cache ka) k')"
    proof
      fix k'
      show "cache_get (cache ka') k'
               = (if k' \<in> set (k # ks) \<and> doomed ka f k' then None else cache_get (cache ka) k')"
      proof (cases "k' = k")
        case True
        then show ?thesis using IHc[of k] kn gone \<open>doomed ka f k\<close> by simp
      next
        case False
        show ?thesis
        proof (cases "k' \<in> set ks")
          case True
          then show ?thesis using IHc[of k'] False dm[OF True] same'[OF True] by simp
        next
          case False
          then show ?thesis using IHc[of k'] \<open>k' \<noteq> k\<close> same[OF \<open>k' \<noteq> k\<close>] by simp
        qed
      qed
    qed
    have r1: "keys ka1 = filter (\<lambda>k'. k' \<noteq> k) (keys ka)"
      using P(2) Cons.prems(2)
      by (simp add: distinct_remove1_removeAll removeAll_filter_not_eq) (metis)
    have "keys ka' = filter (\<lambda>k'. \<not> (k' \<in> set ks \<and> doomed ka1 f k') \<and> k' \<noteq> k) (keys ka)"
      unfolding IHk r1 by (simp add: conj_commute)
    also have "\<dots> = filter (\<lambda>k'. \<not> (k' \<in> set (k # ks) \<and> doomed ka f k')) (keys ka)"
    proof (rule filter_cong[OF refl])
      fix x
      show "(\<not> (x \<in> set ks \<and> doomed ka1 f x) \<and> x \<noteq> k)
            = (\<not> (x \<in> set (k # ks) \<and> doomed ka f x))"
      proof (cases "x = k")
        case True
        then show ?thesis using \<open>doomed ka f k\<close> by simp
      next
        case False
        show ?thesis
        proof (cases "x \<in> set ks")
          case True
          then show ?thesis using False dm[OF True] by simp
        next
          case False
          then show ?thesis using \<open>x \<noteq> k\<close> by simp
        qed
      qed
    qed
    finally have ky: "keys ka' = filter (\<lambda>k'. \<not> (k' \<in> set (k # ks) \<and> doomed ka f k')) (keys ka)" .
    have f1: "filter (\<lambda>k'. doomed ka1 f k' \<and> \<not> exempt_key ka1 k') ks
            = filter (\<lambda>k'. doomed ka f k' \<and> \<not> exempt_key ka k') ks"
      by (rule filter_cong[OF refl]) (simp add: dm ex)
    have m1: "map (inst_at (cache ka1)) (filter (\<lambda>k'. doomed ka f k' \<and> \<not> exempt_key ka k') ks)
            = map (inst_at (cache ka)) (filter (\<lambda>k'. doomed ka f k' \<and> \<not> exempt_key ka k') ks)"
      by (rule map_cong[OF refl]) (simp add: ia)
    have l1: "map Some (destroyed_log ka1) = map Some (destroyed_log ka)
           @ (if exempt_key ka k then [] else [inst_at (cache ka) k])"
      using pruneCacheEntry_log[OF p] v by (simp add: exempt_key_def)
    have lg: "map Some (destroyed_log ka') =
           map Some (destroyed_log ka)
           @ map (inst_at (cache ka)) (filter (\<lambda>k'. doomed ka f k' \<and> \<not> exempt_key ka k') (k # ks))"
      unfolding IHl f1 m1 l1 using \<open>doomed ka f k\<close> by simp
    from c ky lg show ?thesis by blast
  qed
qed

lemma set_own_keys: "set (own_keys c) = fst ` set c"
  by (auto simp: own_keys_def)

lemma distinct_own_keys: "distinct (map fst c) \<Longrightarrow> distinct (own_keys c)"
  by (auto simp: own_keys_def)

lemma cache_get_in_own_keys: "cache_get c k = Some v \<Longrightarrow> k \<in> set (own_keys c)"
  by (auto simp: cache_get_def set_own_keys split: option.splits dest!: map_of_SomeD intro: rev_image_eqI)

lemma names_distinct_update:
  "names_distinct ka \<Longrightarrow> names_distinct (ka\<lparr>cache := AList.update k v (cache ka)\<rparr>)"
  by (simp add: names_distinct_def AList.distinct_update)

lemma names_distinct_prune:
  "names_distinct ka \<Longrightarrow> names_distinct (state_after (pruneCacheEntry ka k cur))"
proof (cases "pruneCacheEntry ka k cur")
  case (Inl a)
  assume n: "names_distinct ka"
  obtain e ka' where a: "a = (e, ka')" by (cases a)
  from pruneCacheEntry_Inl(1)[OF Inl[unfolded a]] n Inl a show ?thesis
    by (simp add: state_after_def names_distinct_def)
next
  case (Inr ka')
  assume n: "names_distinct ka"
  from pruneCacheEntry_Inr(1)[OF Inr] n Inr show ?thesis
    by (simp add: state_after_def names_distinct_def AList.distinct_update)
qed

lemma names_distinct_pruneCache_loop:
  "names_distinct ka \<Longrightarrow> names_distinct (state_after (pruneCache_loop ka f cur ks))"
proof (induction ks arbitrary: ka)
  case Nil
  then show ?case by (simp add: state_after_def)
next
  case (Cons k ks)
  show ?case
  proof (cases "pruneCache_loop ka f cur (k # ks) = pruneCache_loop ka f cur ks")
    case True
    then show ?thesis using Cons by simp
  next
    case False
    then have step: "pruneCache_loop ka f cur (k # ks) =
        (case pruneCacheEntry ka k cur of Inl e \<Rightarrow> Inl e
         | Inr ka' \<Rightarrow> pruneCache_loop ka' f cur ks)"
      by (auto simp: Let_def split: option.splits)
    show ?thesis
    proof (cases "pruneCacheEntry ka k cur")
      case (Inl a)
      then show ?thesis using step names_distinct_prune[OF Cons.prems, of k cur]
        by (simp add: state_after_def)
    next
      case (Inr ka')
      then have "names_distinct ka'" using names_distinct_prune[OF Cons.prems, of k cur]
        by (simp add: state_after_def)
      then show ?thesis using step Inr Cons.IH[of ka'] by simp
    qed
  qed
qed

lemma names_distinct_destroyed_loop:
  "names_distinct ka \<Longrightarrow> names_distinct (state_after (destroyed_loop ka ks))"
proof (induction ks arbitrary: ka)
  case Nil
  then show ?case by (simp add: state_after_def)
next
  case (Cons k ks)
  show ?case
  proof (cases "pruneCacheEntry ka k None")
    case (Inl a)
    then show ?thesis using names_distinct_prune[OF Cons.prems, of k None]
      by (simp add: state_after_def)
  next
    case (Inr ka')
    then have "names_distinct ka'" using names_distinct_prune[OF Cons.prems, of k None]
      by (simp add: state_after_def)
    then show ?thesis using Inr Cons.IH[of ka'] by simp
  qed
qed

lemma names_distinct_mark: "names_distinct ka \<Longrightarrow> names_distinct (mark_keepAlive ka k)"
  by (auto simp: mark_keepAlive_def names_distinct_def AList.distinct_update split: option.splits)

lemma names_distinct_render:
  assumes "names_distinct ka"
  shows "names_distinct (render_state (render ka child slot0))"
proof (cases "\<exists>vnode opts. child = Some vnode \<and> is_miss ka vnode opts")
  case False
  then have "cache (render_state (render ka child slot0)) = cache ka"
    by (auto simp: render_def render_state_def is_miss_def Let_def split: option.splits)
  then show ?thesis using assms by (simp add: names_distinct_def)
next
  case True
  then obtain vnode opts where child: "child = Some vnode" and miss: "is_miss ka vnode opts"
    by blast
  define k where "k = deriveKey vnode opts"
  define ka1 where
    "ka1 = ka\<lparr>cache := AList.update k (Some vnode) (cache ka), keys := keys ka @ [k]\<rparr>"
  have n1: "names_distinct ka1"
    using assms by (simp add: ka1_def names_distinct_def AList.distinct_update)
  note R = render_miss[OF miss, of slot0, folded k_def, folded ka1_def]
  define r where
    "r = (if truthy_max (max_prop ka)
             \<and> length_exceeds (Suc (length (keys ka))) (parseInt (max_prop ka))
          then pruneCacheEntry ka1 (hd (keys ka @ [k])) (cur_vnode ka) else Inr ka1)"
  have nr: "names_distinct (state_after r)"
    unfolding r_def using n1 names_distinct_prune[OF n1] by (simp add: state_after_def)
  have "render ka child slot0 =
          (case r of Inl e \<Rightarrow> Inl e
           | Inr ka2 \<Rightarrow> Inr (mark_keepAlive ka2 k, Some (vnode\<lparr>data_keepAlive := True\<rparr>)))"
    using R child by (simp add: r_def)
  then show ?thesis using nr names_distinct_mark
    by (auto simp: render_state_def state_after_def split: sum.splits prod.splits)
qed

lemma names_distinct_perform:
  assumes "names_distinct ka"
  shows "names_distinct (state_after (perform ka x))"
proof (cases x)
  case (Render c s)
  from names_distinct_render[OF assms, of c s] Render show ?thesis
    by (auto simp: render_state_def state_after_def split: sum.splits prod.splits)
next
  case (IncludeChanged v)
  have "names_distinct (ka\<lparr>include_prop := v\<rparr>)" using assms by (simp add: names_distinct_def)
  then show ?thesis using IncludeChanged
    by (simp add: watch_include_def pruneCache_def names_distinct_pruneCache_loop)
next
  case (ExcludeChanged v)
  have "names_distinct (ka\<lparr>exclude_prop := v\<rparr>)" using assms by (simp add: names_distinct_def)
  then show ?thesis using ExcludeChanged
    by (simp add: watch_exclude_def pruneCache_def names_distinct_pruneCache_loop)
next
  case Destroyed
  then show ?thesis using assms by (simp add: destroyed_def names_distinct_destroyed_loop)
next
  case (HostPatch k i)
  then show ?thesis using assms
    by (auto simp: state_after_def host_patch_def names_distinct_def AList.distinct_update
        split: option.splits)
next
  case (HostSetVnode v)
  then show ?thesis using assms by (simp add: state_after_def names_distinct_def)
next
  case (HostSetMax m)
  then show ?thesis using assms by (simp add: state_after_def names_distinct_def)
qed

lemma names_distinct_run: "names_distinct ka \<Longrightarrow> names_distinct (run ka ops)"
  unfolding run_def
  by (induction ops arbitrary: ka) (simp_all add: names_distinct_perform)

lemma names_distinct_created: "names_distinct (created inc exc m)"
  by (simp add: names_distinct_def created_def)

text \<open>
  C2, as stated, fails: with \<open>A\<close> and \<open>B\<close> cached and \<open>B\<close> the current vnode, changing
  \<open>exclude\<close> to \<open>"B"\<close> prunes \<open>B\<close>. Its instance is not destroyed, but the entry does not
  stay: \<open>cache["B"]\<close> is \<open>null\<close> and \<open>B\<close> has left \<open>keys\<close>.
\<close>

theorem current_entry_pruned_counterexample:
  "exempt_key ex_full ''B''
   \<and> perform ex_full (ExcludeChanged (Some (PString ''B'')))
       = Inr (state_after (perform ex_full (ExcludeChanged (Some (PString ''B'')))))
   \<and> keys (state_after (perform ex_full (ExcludeChanged (Some (PString ''B''))))) = [''A'']
   \<and> cache_get (cache (state_after (perform ex_full (ExcludeChanged (Some (PString ''B'')))))) ''B''
       = None
   \<and> destroyed_log (state_after (perform ex_full (ExcludeChanged (Some (PString ''B''))))) = []"
proof -
  have "case perform ex_full (ExcludeChanged (Some (PString ''B''))) of
          Inl _ \<Rightarrow> False | Inr _ \<Rightarrow> True"
    by code_simp
  then have "perform ex_full (ExcludeChanged (Some (PString ''B'')))
       = Inr (state_after (perform ex_full (ExcludeChanged (Some (PString ''B'')))))"
    by (rule completes_split)
  moreover have "exempt_key ex_full ''B''" by code_simp
  moreover have "keys (state_after (perform ex_full (ExcludeChanged (Some (PString ''B''))))) = [''A'']"
    by code_simp
  moreover have "cache_get (cache (state_after (perform ex_full (ExcludeChanged (Some (PString ''B'')))))) ''B''
       = None"
    by code_simp
  moreover have "destroyed_log (state_after (perform ex_full (ExcludeChanged (Some (PString ''B''))))) = []"
    by code_simp
  ultimately show ?thesis by blast
qed

lemma prune_effect_wf:
  assumes "distinct (map fst (cache ka))" and "bijection ka" and "pruneCache ka f = Inr ka'"
  shows "(\<forall>k. cache_get (cache ka') k = (if doomed ka f k then None else cache_get (cache ka) k))
       \<and> keys ka' = filter (\<lambda>k. \<not> doomed ka f k) (keys ka)
       \<and> map Some (destroyed_log ka') =
           map Some (destroyed_log ka)
           @ map (inst_at (cache ka))
               (filter (\<lambda>k. doomed ka f k \<and> \<not> exempt_key ka k) (own_keys (cache ka)))"
proof -
  have d: "distinct (own_keys (cache ka))" using assms(1) by (rule distinct_own_keys)
  have dk: "distinct (keys ka)" using assms(2) by (simp add: bijection_def)
  have in_keys: "\<And>k. doomed ka f k \<Longrightarrow> k \<in> set (own_keys (cache ka))"
    by (auto simp: doomed_def split: option.splits dest: cache_get_in_own_keys)
  note E = pruneCache_loop_effect[OF d dk assms(3)[unfolded pruneCache_def]]
  have "\<forall>k. cache_get (cache ka') k = (if doomed ka f k then None else cache_get (cache ka) k)"
    using E in_keys by auto
  moreover have "keys ka' = filter (\<lambda>k. \<not> doomed ka f k) (keys ka)"
    using E in_keys by (auto intro!: filter_cong)
  ultimately show ?thesis using E by blast
qed

text \<open>
  C2, amended. In a state reached from the created instance, a prune that completes
  removes every entry whose name fails the filter from both \<open>cache\<close> (the slot becomes \<open>null\<close>) and \<open>keys\<close>, and leaves every other
  entry as it was. Among the removed entries, exactly those whose tag differs from the
  current vnode's tag have their instance destroyed (once each, in enumeration order);
  an entry with the current vnode's tag is removed without being destroyed.
\<close>

theorem pruneCache_effect:
  assumes "ka = run (created inc exc m) ops" and "pruneCache ka f = Inr ka'"
  shows "(\<forall>k. cache_get (cache ka') k = (if doomed ka f k then None else cache_get (cache ka) k))
       \<and> keys ka' = filter (\<lambda>k. \<not> doomed ka f k) (keys ka)
       \<and> map Some (destroyed_log ka') =
           map Some (destroyed_log ka)
           @ map (inst_at (cache ka))
               (filter (\<lambda>k. doomed ka f k \<and> \<not> exempt_key ka k) (own_keys (cache ka)))"
proof -
  have "names_distinct ka"
    unfolding assms(1) by (rule names_distinct_run[OF names_distinct_created])
  then have d: "distinct (map fst (cache ka))" by (simp add: names_distinct_def)
  have b: "bijection ka" unfolding assms(1) by (rule bijection_run[OF bijection_created])
  show ?thesis by (rule prune_effect_wf[OF d b assms(2)])
qed

theorem pruneCache_effect_witness:
  "ex_full = run (created None None (Some (MaxNumber 2)))
       [Render (Some (ex_vnode 1 ''A'')) None, HostPatch ''A'' (ex_inst 1 False),
        HostSetVnode (Some (ex_vnode 1 ''A'')),
        Render (Some (ex_vnode 2 ''B'')) None, HostPatch ''B'' (ex_inst 2 False),
        HostSetVnode (Some (ex_vnode 2 ''B''))]
   \<and> pruneCache ex_full (\<lambda>name. \<not> matches (Some (PArray [''A'', ''B''])) name)
       = Inr (state_after (pruneCache ex_full (\<lambda>name. \<not> matches (Some (PArray [''A'', ''B''])) name)))
   \<and> doomed ex_full (\<lambda>name. \<not> matches (Some (PArray [''A'', ''B''])) name) ''A''
   \<and> doomed ex_full (\<lambda>name. \<not> matches (Some (PArray [''A'', ''B''])) name) ''B''
   \<and> \<not> exempt_key ex_full ''A'' \<and> exempt_key ex_full ''B''
   \<and> keys (state_after (pruneCache ex_full (\<lambda>name. \<not> matches (Some (PArray [''A'', ''B''])) name)))
       = filter (\<lambda>k. \<not> doomed ex_full (\<lambda>name. \<not> matches (Some (PArray [''A'', ''B''])) name) k)
           (keys ex_full)
   \<and> map Some (destroyed_log
         (state_after (pruneCache ex_full (\<lambda>name. \<not> matches (Some (PArray [''A'', ''B''])) name))))
       = [Some 1]"
proof -
  note a = ex_full_def
  have "case pruneCache ex_full (\<lambda>name. \<not> matches (Some (PArray [''A'', ''B''])) name) of
          Inl _ \<Rightarrow> False | Inr _ \<Rightarrow> True"
    by code_simp
  then have c: "pruneCache ex_full (\<lambda>name. \<not> matches (Some (PArray [''A'', ''B''])) name)
       = Inr (state_after (pruneCache ex_full (\<lambda>name. \<not> matches (Some (PArray [''A'', ''B''])) name)))"
    by (rule completes_split)
  have d: "doomed ex_full (\<lambda>name. \<not> matches (Some (PArray [''A'', ''B''])) name) ''A''"
    "doomed ex_full (\<lambda>name. \<not> matches (Some (PArray [''A'', ''B''])) name) ''B''"
    "\<not> exempt_key ex_full ''A''" "exempt_key ex_full ''B''"
    by code_simp+
  have e: "map Some (destroyed_log ex_full)
           @ map (inst_at (cache ex_full))
               (filter (\<lambda>k. doomed ex_full (\<lambda>name. \<not> matches (Some (PArray [''A'', ''B''])) name) k
                            \<and> \<not> exempt_key ex_full k) (own_keys (cache ex_full)))
           = [Some 1]"
    by code_simp
  from pruneCache_effect[OF a c] have
    "keys (state_after (pruneCache ex_full (\<lambda>name. \<not> matches (Some (PArray [''A'', ''B''])) name)))
       = filter (\<lambda>k. \<not> doomed ex_full (\<lambda>name. \<not> matches (Some (PArray [''A'', ''B''])) name) k)
           (keys ex_full)"
    "map Some (destroyed_log
         (state_after (pruneCache ex_full (\<lambda>name. \<not> matches (Some (PArray [''A'', ''B''])) name))))
       = [Some 1]"
    using e by simp_all
  with a c d show ?thesis by blast
qed

section \<open>How often an instance is destroyed\<close>

lemma inst_at_update:
  "inst_at (AList.update k v c) k'
     = (if k' = k then (case v of None \<Rightarrow> None | Some vn \<Rightarrow> map_option iid (componentInstance vn))
        else inst_at c k')"
  by (simp add: inst_at_def cache_get_update split: option.splits)

lemma inst_at_held: "inst_at c k = Some n \<Longrightarrow> n \<in> set (held_instances c)"
proof -
  assume a: "inst_at c k = Some n"
  then obtain v i where v: "map_of c k = Some (Some v)" and i: "componentInstance v = Some i" "iid i = n"
    by (auto simp: inst_at_def cache_get_def split: option.splits)
  from v have "(k, Some v) \<in> set c" by (rule map_of_SomeD)
  then show ?thesis using i by (force simp: held_instances_def)
qed

lemma fresh_not_held:
  "fresh ka i \<Longrightarrow> iid i \<notin> set (destroyed_log ka) \<and> (\<forall>k. inst_at (cache ka) k \<noteq> Some (iid i))"
  by (auto simp: fresh_def dest: inst_at_held)

lemma inst_inv_prune:
  assumes "inst_inv ka" "pruneCacheEntry ka k cur = Inr ka'"
  shows "inst_inv ka'"
proof -
  note P = pruneCacheEntry_Inr[OF assms(2)]
  have ia: "\<And>k'. inst_at (cache ka') k' = (if k' = k then None else inst_at (cache ka) k')"
    using P(1) by (simp add: inst_at_update)
  have lg: "destroyed_log ka' = destroyed_log ka
            \<or> (\<exists>n. inst_at (cache ka) k = Some n \<and> destroyed_log ka' = destroyed_log ka @ [n])"
    using assms(2)
    by (auto simp: pruneCacheEntry_def call_destroy_def inst_at_def Let_def
        split: option.splits if_splits sum.splits)
  from lg show ?thesis
  proof
    assume "destroyed_log ka' = destroyed_log ka"
    then show ?thesis using assms(1) ia unfolding inst_inv_def by (auto split: if_splits)
  next
    assume "\<exists>n. inst_at (cache ka) k = Some n \<and> destroyed_log ka' = destroyed_log ka @ [n]"
    then obtain n where n: "inst_at (cache ka) k = Some n" "destroyed_log ka' = destroyed_log ka @ [n]"
      by blast
    have "distinct (destroyed_log ka')" using n assms(1) unfolding inst_inv_def by auto
    moreover have "\<forall>k' n'. inst_at (cache ka') k' = Some n' \<longrightarrow> n' \<notin> set (destroyed_log ka')"
      using n assms(1) ia unfolding inst_inv_def by (auto split: if_splits)
    moreover have "\<forall>k1 k2 n'. inst_at (cache ka') k1 = Some n' \<and> inst_at (cache ka') k2 = Some n' \<longrightarrow> k1 = k2"
      using assms(1) ia unfolding inst_inv_def by (auto split: if_splits)
    ultimately show ?thesis unfolding inst_inv_def by blast
  qed
qed

lemma inst_inv_pruneCache_loop:
  "inst_inv ka \<Longrightarrow> pruneCache_loop ka f cur ks = Inr ka' \<Longrightarrow> inst_inv ka'"
proof (induction ks arbitrary: ka)
  case Nil
  then show ?case by simp
next
  case (Cons k ks)
  show ?case
  proof (cases "pruneCache_loop ka f cur (k # ks) = pruneCache_loop ka f cur ks")
    case True
    then show ?thesis using Cons by simp
  next
    case False
    then obtain ka1 where p: "pruneCacheEntry ka k cur = Inr ka1"
      and l: "pruneCache_loop ka1 f cur ks = Inr ka'"
      using Cons.prems(2) by (auto simp: Let_def split: option.splits if_splits sum.splits)
    from Cons.IH[OF inst_inv_prune[OF Cons.prems(1) p] l] show ?thesis .
  qed
qed

lemma inst_inv_destroyed_loop:
  "inst_inv ka \<Longrightarrow> destroyed_loop ka ks = Inr ka' \<Longrightarrow> inst_inv ka'"
proof (induction ks arbitrary: ka)
  case Nil
  then show ?case by simp
next
  case (Cons k ks)
  from Cons.prems(2) obtain ka1 where p: "pruneCacheEntry ka k None = Inr ka1"
    and l: "destroyed_loop ka1 ks = Inr ka'"
    by (auto split: sum.splits)
  from Cons.IH[OF inst_inv_prune[OF Cons.prems(1) p] l] show ?case .
qed

lemma inst_inv_cong:
  "cache ka' = cache ka \<Longrightarrow> destroyed_log ka' = destroyed_log ka \<Longrightarrow> inst_inv ka' = inst_inv ka"
  by (simp add: inst_inv_def)

lemma inst_inv_store:
  assumes "inst_inv ka"
    and "\<And>i. componentInstance v = Some i \<Longrightarrow> fresh ka i"
  shows "inst_inv (ka\<lparr>cache := AList.update k (Some v) (cache ka), keys := ks\<rparr>)"
proof (cases "componentInstance v")
  case None
  then show ?thesis using assms(1) unfolding inst_inv_def
    by (auto simp: inst_at_update split: if_splits)
next
  case (Some i)
  from fresh_not_held[OF assms(2)[OF Some]]
  have f: "iid i \<notin> set (destroyed_log ka)" "\<And>k. inst_at (cache ka) k \<noteq> Some (iid i)"
    by auto
  then show ?thesis using assms(1) Some unfolding inst_inv_def
    by (auto simp: inst_at_update split: if_splits)
qed

lemma inst_at_mark: "inst_at (cache (mark_keepAlive ka k)) k' = inst_at (cache ka) k'"
proof (cases "cache_get (cache ka) k")
  case None
  then show ?thesis by (simp add: mark_keepAlive_def)
next
  case (Some v)
  then have "inst_at (cache ka) k = map_option iid (componentInstance v)"
    by (simp add: inst_at_def)
  then show ?thesis using Some by (simp add: mark_keepAlive_def inst_at_update)
qed

lemma inst_inv_mark: "inst_inv ka \<Longrightarrow> inst_inv (mark_keepAlive ka k)"
  by (simp add: inst_inv_def inst_at_mark mark_keepAlive_fields)

lemma inst_inv_host_patch:
  assumes "inst_inv ka" "fresh ka i"
  shows "inst_inv (host_patch ka k i)"
proof (cases "cache_get (cache ka) k")
  case None
  then show ?thesis using assms(1) by (simp add: host_patch_def)
next
  case (Some v)
  have "inst_inv (ka\<lparr>cache := AList.update k (Some (v\<lparr>componentInstance := Some i\<rparr>)) (cache ka), keys := keys ka\<rparr>)"
    by (rule inst_inv_store[OF assms(1)]) (simp add: assms(2))
  then show ?thesis using Some by (simp add: host_patch_def)
qed

lemma inst_inv_render:
  assumes "inst_inv ka" "op_fresh ka (Render child slot0)" "render ka child slot0 = Inr (ka', r)"
  shows "inst_inv ka'"
proof (cases child)
  case None
  then show ?thesis using assms by (simp add: render_def)
next
  case (Some vnode)
  note child = Some
  show ?thesis
  proof (cases "componentOptions vnode")
    case None
    then show ?thesis using assms child by (simp add: render_def)
  next
    case (Some opts)
    note opts = Some
    show ?thesis
    proof (cases "not_cached (include_prop ka) (exclude_prop ka) (getComponentName (Some opts))")
      case True
      then show ?thesis using assms child opts by (simp add: render_def)
    next
      case False
      define k where "k = deriveKey vnode opts"
      show ?thesis
      proof (cases "cache_get (cache ka) k")
        case (Some cached)
        have "render ka child slot0 = Inr (ka\<lparr>keys := remove1 k (keys ka) @ [k]\<rparr>,
          Some (vnode\<lparr>componentInstance := componentInstance cached, data_keepAlive := True\<rparr>))"
          using render_hit[OF opts False Some[unfolded k_def], of slot0] child by (simp add: k_def)
        then have "ka' = ka\<lparr>keys := remove1 k (keys ka) @ [k]\<rparr>" using assms(3) by simp
        then show ?thesis using assms(1) by (simp add: inst_inv_def)
      next
        case None
        have miss: "is_miss ka vnode opts" using opts False None by (simp add: is_miss_def k_def)
        define ka1 where
          "ka1 = ka\<lparr>cache := AList.update k (Some vnode) (cache ka), keys := keys ka @ [k]\<rparr>"
        have fr: "\<And>i. componentInstance vnode = Some i \<Longrightarrow> fresh ka i"
          using assms(2) child by simp
        have i1: "inst_inv ka1" unfolding ka1_def by (rule inst_inv_store[OF assms(1) fr])
        note R = render_miss[OF miss, of slot0, folded k_def, folded ka1_def]
        from R assms(3) child obtain ka2 where
          ka2: "ka2 = ka1 \<or> pruneCacheEntry ka1 (hd (keys ka @ [k])) (cur_vnode ka) = Inr ka2"
          and ka': "ka' = mark_keepAlive ka2 k"
          by (auto split: if_splits sum.splits)
        from ka2 i1 have "inst_inv ka2" using inst_inv_prune[OF i1] by blast
        then show ?thesis using ka' by (simp add: inst_inv_mark)
      qed
    qed
  qed
qed

lemma inst_inv_perform:
  assumes "inst_inv ka" "op_fresh ka x" "perform ka x = Inr ka'"
  shows "inst_inv ka'"
proof (cases x)
  case (Render c s)
  with assms(3) obtain r where "render ka c s = Inr (ka', r)"
    by (auto split: sum.splits prod.splits)
  from inst_inv_render[OF assms(1) assms(2)[unfolded Render] this] show ?thesis .
next
  case (IncludeChanged v)
  have "inst_inv (ka\<lparr>include_prop := v\<rparr>)" using assms(1) by (simp add: inst_inv_def)
  then show ?thesis using assms(3) IncludeChanged
    by (auto simp: watch_include_def pruneCache_def dest: inst_inv_pruneCache_loop)
next
  case (ExcludeChanged v)
  have "inst_inv (ka\<lparr>exclude_prop := v\<rparr>)" using assms(1) by (simp add: inst_inv_def)
  then show ?thesis using assms(3) ExcludeChanged
    by (auto simp: watch_exclude_def pruneCache_def dest: inst_inv_pruneCache_loop)
next
  case Destroyed
  then show ?thesis using assms by (auto simp: destroyed_def dest: inst_inv_destroyed_loop)
next
  case (HostPatch k i)
  then show ?thesis using assms by (auto simp: inst_inv_host_patch)
next
  case (HostSetVnode v)
  then show ?thesis using assms by (auto simp: inst_inv_def)
next
  case (HostSetMax m)
  then show ?thesis using assms by (auto simp: inst_inv_def)
qed

lemma inst_inv_quiet_run: "inst_inv ka \<Longrightarrow> quiet_run ka ops \<Longrightarrow> inst_inv (run ka ops)"
proof (induction ops arbitrary: ka)
  case Nil
  then show ?case by (simp add: run_Nil)
next
  case (Cons x xs)
  from Cons.prems(2) obtain ka' where f: "op_fresh ka x" and p: "perform ka x = Inr ka'"
    and q: "quiet_run ka' xs"
    by (auto split: sum.splits)
  have "inst_inv ka'" by (rule inst_inv_perform[OF Cons.prems(1) f p])
  from Cons.IH[OF this q] show ?case using p by (simp add: run_Cons state_after_def)
qed

lemma inst_inv_created: "inst_inv (created inc exc m)"
  by (simp add: inst_inv_def created_def inst_at_def cache_get_def)

text \<open>
  C9, as stated, fails when a destroy call raises: with \<open>A\<close> and \<open>B\<close> cached under
  \<open>max = 2\<close>, rendering \<open>C\<close> calls \<open>$destroy()\<close> on \<open>A\<close>'s instance, which raises and
  leaves \<open>A\<close> cached; the teardown then calls \<open>$destroy()\<close> on the same instance again.
\<close>

theorem destroy_twice_counterexample:
  "destroyed_log (run ex_two_entries [Render (Some (ex_vnode 3 ''C'')) None, Destroyed]) = [1, 1]
   \<and> inst_at (cache ex_two_entries) ''A'' = Some 1"
  by code_simp

text \<open>
  C9, amended. In every run from the created instance in which no operation raises, and
  in which each instance the framework attaches to a cached vnode is held by no other
  entry and has not been destroyed, no instance receives the destroy call more than
  once, whatever the mix of capacity evictions, prunes and teardown.
\<close>

theorem destroy_at_most_once_quiet:
  assumes "quiet_run (created inc exc m) ops"
  shows "distinct (destroyed_log (run (created inc exc m) ops))"
  using inst_inv_quiet_run[OF inst_inv_created assms] by (simp add: inst_inv_def)

theorem destroy_at_most_once_quiet_witness:
  "quiet_run (created None None (Some (MaxNumber 2))) ex_life
   \<and> destroyed_log (run (created None None (Some (MaxNumber 2))) ex_life) = [1, 2, 3]
   \<and> distinct (destroyed_log (run (created None None (Some (MaxNumber 2))) ex_life))"
proof -
  have q: "quiet_run (created None None (Some (MaxNumber 2))) ex_life" by code_simp
  have l: "destroyed_log (run (created None None (Some (MaxNumber 2))) ex_life) = [1, 2, 3]"
    by code_simp
  from destroy_at_most_once_quiet[OF q] q l show ?thesis by blast
qed

end
